theory Spec2Isabelle
  imports Complex_Main
begin

section \<open>The Tivoli wheel of \<^verbatim>\<open>src/App.tsx\<close>\<close>

text \<open>
  The component draws a wheel of \<open>N\<close> slices, one per recipe, spins it with a cubic
  ease-out and reports the recipe whose slice stops under the marker at the top.

  The component is modelled twice. In the first model JavaScript numbers are exact reals:
  \<open>+\<close>, \<open>-\<close>, \<open>*\<close>, \<open>/\<close> are the field operations, \<^verbatim>\<open>Math.PI\<close> is \<^term>\<open>pi\<close>,
  \<^verbatim>\<open>Math.floor\<close> is \<^term>\<open>floor\<close> and \<^verbatim>\<open>Math.pow(x, 3)\<close> is \<open>x ^ 3\<close>. It carries the
  state of the component and the properties that do not depend on rounding. The second
  model, further down, repeats the drawing of the slices and the resolution of the winner
  on IEEE doubles, with every arithmetic result rounded; the properties that relate
  angles to slices are stated on it.
\<close>

subsection \<open>Arithmetic of the source language\<close>

text \<open>
  The remainder operator \<^verbatim>\<open>%\<close> truncates the quotient toward zero, so the result
  has the sign of the dividend. Every divisor of \<^verbatim>\<open>%\<close> and \<^verbatim>\<open>/\<close> in the source
  is a positive constant or \<^verbatim>\<open>recipes.length\<close> where it is already known to be
  non-zero, so division by zero does not arise.
\<close>

definition js_trunc :: "real \<Rightarrow> int" where
  "js_trunc x = (if 0 \<le> x then \<lfloor>x\<rfloor> else \<lceil>x\<rceil>)"

definition js_rem :: "real \<Rightarrow> real \<Rightarrow> real" where
  "js_rem x y = x - y * of_int (js_trunc (x / y))"

datatype js_error = TypeError

text \<open>
  \<^verbatim>\<open>xs[k].name\<close>: reading an element at a number that is not an index of the array
  gives \<^verbatim>\<open>undefined\<close>, and reading a property of \<^verbatim>\<open>undefined\<close> throws.
\<close>

definition array_get :: "'a list \<Rightarrow> real \<Rightarrow> js_error + 'a" where
  "array_get xs k =
     (if 0 \<le> k \<and> k < real (length xs) \<and> of_int \<lfloor>k\<rfloor> = k
      then Inr (xs ! nat \<lfloor>k\<rfloor>) else Inl TypeError)"

subsection \<open>Data\<close>

record recipe =
  name :: string

definition COLORS :: "nat list" where
  "COLORS = [0xFF6B6B, 0x4ECDC4, 0x45B7D1, 0xFFA07A, 0x98D8C8,
             0xF67280, 0xC06C84, 0x6C5B7B, 0x355C7D, 0xF8B195]"

text \<open>
  One child of the wheel: the filled arc and the caption placed at its middle. The
  component keeps three references and two pieces of React state; the callbacks handed to
  \<^verbatim>\<open>requestAnimationFrame\<close> and not yet run are kept in \<open>scheduled\<close>. The child
  list of the PIXI stage is not modelled.
\<close>

record sliceContainer =
  fill :: nat
  startAngle :: real
  endAngle :: real
  label :: string
  textX :: real
  textY :: real

record wheel =
  children :: "sliceContainer list"
  rotation :: real

record animation =
  maxRotations :: real
  startTime :: int

record component =
  appRef :: bool
  wheelContainerRef :: "wheel option"
  tickerRef :: bool
  winningItem :: "string option"
  isSpinning :: bool
  scheduled :: "animation list"

text \<open>The component after its first effect has created the PIXI application.\<close>

definition mounted :: component where
  "mounted = \<lparr>appRef = True, wheelContainerRef = None, tickerRef = False,
              winningItem = None, isSpinning = False, scheduled = []\<rparr>"

text \<open>The initial state of \<^verbatim>\<open>WheelPage\<close>.\<close>

definition initialRecipes :: "recipe list" where
  "initialRecipes = [\<lparr>name = ''Pizza''\<rparr>, \<lparr>name = ''Pasta''\<rparr>, \<lparr>name = ''Salad''\<rparr>,
                     \<lparr>name = ''Soup''\<rparr>, \<lparr>name = ''Steak''\<rparr>]"

subsection \<open>Drawing the wheel: \<^verbatim>\<open>createWheel\<close>\<close>

definition radius :: real where
  "radius = 200"

text \<open>
  The body of the \<^verbatim>\<open>forEach\<close>, for the recipe at \<open>index\<close> of \<open>n\<close> recipes. The
  palette is a parameter; the component passes \<^const>\<open>COLORS\<close>. The angles are the
  exact ones here; the doubles that the source computes are \<open>fl_angle\<close> below.
\<close>

definition drawSlice :: "nat list \<Rightarrow> nat \<Rightarrow> nat \<Rightarrow> recipe \<Rightarrow> sliceContainer" where
  "drawSlice palette n index recipe =
     (let startAngle = (real index / real n) * pi * 2;
          endAngle = (real (index + 1) / real n) * pi * 2
      in \<lparr>fill = palette ! (index mod length palette),
          startAngle = startAngle,
          endAngle = endAngle,
          label = name recipe,
          textX = cos ((startAngle + endAngle) / 2) * (radius / 2),
          textY = sin ((startAngle + endAngle) / 2) * (radius / 2)\<rparr>)"

definition drawSlices :: "nat list \<Rightarrow> recipe list \<Rightarrow> sliceContainer list" where
  "drawSlices palette recipes =
     map (\<lambda>(index, recipe). drawSlice palette (length recipes) index recipe)
       (enumerate 0 recipes)"

text \<open>
  \<^verbatim>\<open>createWheel\<close> returns early, leaving everything as it was, when there is no
  application or the number of recipes is not between 2 and 100. It never throws.
\<close>

definition createWheel :: "recipe list \<Rightarrow> component \<Rightarrow> component" where
  "createWheel recipes st =
     (if \<not> appRef st \<or> length recipes < 2 \<or> length recipes > 100 then st
      else st\<lparr>wheelContainerRef :=
                  Some \<lparr>children = drawSlices COLORS recipes, rotation = 0\<rparr>,
              tickerRef := True\<rparr>)"

subsection \<open>Resolving the winner: \<^verbatim>\<open>getWinningItem\<close>\<close>

text \<open>
  In exact arithmetic. The same function on doubles is \<open>fl_getWinningItem\<close> below; the
  two agree wherever no rounding comes between an angle and a slice boundary.
\<close>

definition normalizedRotation :: "real \<Rightarrow> real" where
  "normalizedRotation finalRotation =
     js_rem (js_rem finalRotation (pi * 2) + pi * 2) (pi * 2)"

definition sliceAngle :: "nat \<Rightarrow> real" where
  "sliceAngle n = (pi * 2) / real n"

definition topPosition :: real where
  "topPosition = 3 * pi / 2"

definition slicesFromTop :: "real \<Rightarrow> nat \<Rightarrow> real" where
  "slicesFromTop finalRotation n =
     of_int \<lfloor>js_rem (topPosition - normalizedRotation finalRotation + pi * 2) (pi * 2)
               / sliceAngle n\<rfloor>"

definition winningIndex :: "real \<Rightarrow> nat \<Rightarrow> real" where
  "winningIndex finalRotation n = js_rem (slicesFromTop finalRotation n) (real n)"

text \<open>The result \<open>Inr None\<close> is the source's \<^verbatim>\<open>null\<close>.\<close>

definition getWinningItem :: "real \<Rightarrow> recipe list \<Rightarrow> js_error + string option" where
  "getWinningItem finalRotation recipes =
     (if length recipes = 0 then Inr None
      else case array_get recipes (winningIndex finalRotation (length recipes)) of
             Inl e \<Rightarrow> Inl e
           | Inr r \<Rightarrow> Inr (Some (name r)))"

subsection \<open>The easing curve of \<^verbatim>\<open>spin\<close>\<close>

definition easeOut :: "real \<Rightarrow> real" where
  "easeOut t = 1 - (1 - t) ^ 3"

subsection \<open>Spinning: \<^verbatim>\<open>spin\<close> and its frame callback \<^verbatim>\<open>animate\<close>\<close>

definition spinDuration :: real where
  "spinDuration = 10000"

text \<open>
  One run of \<^verbatim>\<open>animate\<close>, with \<open>now\<close> the value \<^verbatim>\<open>Date.now()\<close> returns in it.
  The wheel it turns is the one \<^verbatim>\<open>spin\<close> captured, which is the one in
  \<open>wheelContainerRef\<close> as long as the wheel is not redrawn during the spin.
\<close>

definition animate :: "recipe list \<Rightarrow> animation \<Rightarrow> int \<Rightarrow> component \<Rightarrow> js_error + component" where
  "animate recipes an now st =
     (let elapsedTime = now - startTime an;
          progress = min (real_of_int elapsedTime / spinDuration) 1;
          rotation = maxRotations an * pi * 2 * easeOut progress;
          st1 = st\<lparr>wheelContainerRef :=
                    map_option (\<lambda>w. w\<lparr>rotation := rotation\<rparr>) (wheelContainerRef st)\<rparr>
      in if progress < 1 then Inr (st1\<lparr>scheduled := scheduled st1 @ [an]\<rparr>)
         else case getWinningItem rotation recipes of
                Inl e \<Rightarrow> Inl e
              | Inr winner \<Rightarrow> Inr (st1\<lparr>winningItem := winner, isSpinning := False\<rparr>))"

text \<open>
  \<^verbatim>\<open>spin\<close>, with \<open>random\<close> the value of \<^verbatim>\<open>Math.random()\<close>, \<open>t0\<close> the clock read
  for \<^verbatim>\<open>startTime\<close> and \<open>now\<close> the clock read by the first run of \<^verbatim>\<open>animate\<close>.
\<close>

definition spin :: "recipe list \<Rightarrow> real \<Rightarrow> int \<Rightarrow> int \<Rightarrow> component \<Rightarrow> js_error + component" where
  "spin recipes random t0 now st =
     (if wheelContainerRef st = None \<or> \<not> tickerRef st \<or> length recipes = 0 \<or> isSpinning st
      then Inr st
      else animate recipes \<lparr>maxRotations = 10 + random, startTime = t0\<rparr> now
             (st\<lparr>isSpinning := True, winningItem := None\<rparr>))"

text \<open>
  An animation frame: the browser runs the callbacks scheduled so far, in order; what
  they schedule waits for the next frame.
\<close>

fun runCallbacks :: "recipe list \<Rightarrow> animation list \<Rightarrow> int \<Rightarrow> component \<Rightarrow> js_error + component" where
  "runCallbacks recipes [] now st = Inr st"
| "runCallbacks recipes (an # ans) now st =
     (case animate recipes an now st of
        Inl e \<Rightarrow> Inl e
      | Inr st' \<Rightarrow> runCallbacks recipes ans now st')"

definition frame :: "recipe list \<Rightarrow> int \<Rightarrow> component \<Rightarrow> js_error + component" where
  "frame recipes now st = runCallbacks recipes (scheduled st) now (st\<lparr>scheduled := []\<rparr>)"

text \<open>
  What happens to the component between two renders: a click on the button, which calls
  \<^verbatim>\<open>spin\<close>, or an animation frame. State updates are taken to be rendered before the
  next event, so that each call reads the current \<open>isSpinning\<close>.
\<close>

datatype event = Click real int int | Frame int

fun step :: "recipe list \<Rightarrow> event \<Rightarrow> component \<Rightarrow> js_error + component" where
  "step recipes (Click random t0 now) st = spin recipes random t0 now st"
| "step recipes (Frame now) st = frame recipes now st"

fun run :: "recipe list \<Rightarrow> event list \<Rightarrow> component \<Rightarrow> js_error + component" where
  "run recipes [] st = Inr st"
| "run recipes (ev # evs) st =
     (case step recipes ev st of
        Inl e \<Rightarrow> Inl e
      | Inr st' \<Rightarrow> run recipes evs st')"

section \<open>The same arithmetic on IEEE doubles\<close>

text \<open>
  A JavaScript number is a binary64 value: every \<open>+\<close>, \<open>-\<close>, \<open>*\<close> and \<open>/\<close> returns the
  exact result rounded to the nearest number with a 53-bit significand, ties going to the
  even significand. \<open>rnd\<close> is that rounding; \<open>ulp_exp x\<close> is the exponent of the last
  significand bit of \<open>x\<close>. The remainder \<^verbatim>\<open>%\<close> and \<^verbatim>\<open>Math.floor\<close> are exact on doubles
  and need no rounding. The exponent range is not bounded here: overflow, subnormal
  numbers, \<^verbatim>\<open>NaN\<close>, the infinities and the sign of zero are not modelled. A rotation is
  reduced modulo \<^verbatim>\<open>Math.PI * 2\<close> before anything is added to it, so no operation below
  overflows.
\<close>

definition round_even :: "real \<Rightarrow> int" where
  "round_even m =
     (let f = \<lfloor>m\<rfloor>; d = m - of_int f
      in if d < 1 / 2 then f else if 1 / 2 < d then f + 1 else if even f then f else f + 1)"

definition ulp_exp :: "real \<Rightarrow> int" where
  "ulp_exp x = \<lfloor>log 2 \<bar>x\<bar>\<rfloor> - 52"

definition rnd :: "real \<Rightarrow> real" where
  "rnd x = (if x = 0 then 0
            else of_int (round_even (x / 2 powi ulp_exp x)) * 2 powi ulp_exp x)"

text \<open>\<^verbatim>\<open>Math.PI\<close> is the double \<open>884279719003555 / 2\<^sup>4\<^sup>8\<close>, that is 3.141592653589793.\<close>

definition Math_PI :: real where
  "Math_PI = 884279719003555 / 2 ^ 48"

definition fl_twoPi :: real where
  "fl_twoPi = rnd (Math_PI * 2)"

text \<open>
  \<^verbatim>\<open>getWinningItem\<close> once more, operation by operation as the source writes them, each
  arithmetic result rounded.
\<close>

definition fl_normalizedRotation :: "real \<Rightarrow> real" where
  "fl_normalizedRotation finalRotation =
     js_rem (rnd (js_rem finalRotation fl_twoPi + fl_twoPi)) fl_twoPi"

definition fl_sliceAngle :: "nat \<Rightarrow> real" where
  "fl_sliceAngle n = rnd (fl_twoPi / real n)"

definition fl_topPosition :: real where
  "fl_topPosition = rnd (rnd (3 * Math_PI) / 2)"

definition fl_slicesFromTop :: "real \<Rightarrow> nat \<Rightarrow> real" where
  "fl_slicesFromTop finalRotation n =
     of_int \<lfloor>rnd (js_rem (rnd (rnd (fl_topPosition - fl_normalizedRotation finalRotation)
                                  + fl_twoPi)) fl_twoPi
                  / fl_sliceAngle n)\<rfloor>"

definition fl_winningIndex :: "real \<Rightarrow> nat \<Rightarrow> real" where
  "fl_winningIndex finalRotation n = js_rem (fl_slicesFromTop finalRotation n) (real n)"

definition fl_getWinningItem :: "real \<Rightarrow> recipe list \<Rightarrow> js_error + string option" where
  "fl_getWinningItem finalRotation recipes =
     (if length recipes = 0 then Inr None
      else case array_get recipes (fl_winningIndex finalRotation (length recipes)) of
             Inl e \<Rightarrow> Inl e
           | Inr r \<Rightarrow> Inr (Some (name r)))"

text \<open>
  The angles that \<^verbatim>\<open>createWheel\<close> passes to \<^verbatim>\<open>arc\<close> for the recipe at \<open>index\<close>:
  \<^verbatim>\<open>(index / recipes.length) * Math.PI * 2\<close> and the same with \<open>index + 1\<close>. A drawn
  slice is kept here with its two angles and its caption; the fill is integer arithmetic
  and is the one of \<^const>\<open>drawSlice\<close>.
\<close>

record fl_slice =
  fl_startAngle :: real
  fl_endAngle :: real
  fl_label :: string

definition fl_angle :: "nat \<Rightarrow> nat \<Rightarrow> real" where
  "fl_angle n j = rnd (rnd (rnd (real j / real n) * Math_PI) * 2)"

definition fl_drawSlice :: "nat \<Rightarrow> nat \<Rightarrow> recipe \<Rightarrow> fl_slice" where
  "fl_drawSlice n index recipe =
     \<lparr>fl_startAngle = fl_angle n index,
      fl_endAngle = fl_angle n (index + 1),
      fl_label = name recipe\<rparr>"

definition fl_drawSlices :: "recipe list \<Rightarrow> fl_slice list" where
  "fl_drawSlices recipes =
     map (\<lambda>(index, recipe). fl_drawSlice (length recipes) index recipe)
       (enumerate 0 recipes)"

section \<open>Auxiliary notions for the proofs\<close>

text \<open>The representative of an angle in \<open>[0, 2\<pi>)\<close>.\<close>

definition wrap :: "real \<Rightarrow> real" where
  "wrap x = x - (pi * 2) * of_int \<lfloor>x / (pi * 2)\<rfloor>"

text \<open>
  The states the component is in once a wheel is drawn, and the progress and rotation
  that a run of \<^verbatim>\<open>animate\<close> computes.
\<close>

definition ready :: "component \<Rightarrow> bool" where
  "ready st \<longleftrightarrow> wheelContainerRef st \<noteq> None \<and> tickerRef st
      \<and> length (scheduled st) \<le> 1 \<and> (isSpinning st \<longleftrightarrow> scheduled st \<noteq> [])"

definition progressAt :: "animation \<Rightarrow> int \<Rightarrow> real" where
  "progressAt an now = min (real_of_int (now - startTime an) / spinDuration) 1"

definition rotationAt :: "animation \<Rightarrow> int \<Rightarrow> real" where
  "rotationAt an now = maxRotations an * pi * 2 * easeOut (progressAt an now)"

text \<open>
  On doubles: the angle under the marker as \<^verbatim>\<open>getWinningItem\<close> computes it, and the
  representative of an exact angle in \<open>[0, 2 * Math.PI)\<close>.
\<close>

definition fl_pointerAngle :: "real \<Rightarrow> real" where
  "fl_pointerAngle r =
     js_rem (rnd (rnd (fl_topPosition - fl_normalizedRotation r) + fl_twoPi)) fl_twoPi"

definition fl_wrap :: "real \<Rightarrow> real" where
  "fl_wrap x = x - fl_twoPi * of_int \<lfloor>x / fl_twoPi\<rfloor>"

section \<open>Properties\<close>

subsection \<open>The remainder and the normalisation\<close>

lemma js_rem_nonneg:
  assumes "0 \<le> x" "0 < y"
  shows "js_rem x y = x - y * of_int \<lfloor>x / y\<rfloor>"
  using assms by (simp add: js_rem_def js_trunc_def)

lemma js_rem_neg:
  assumes "x < 0" "0 < y"
  shows "js_rem x y = x - y * of_int \<lceil>x / y\<rceil>"
proof -
  have "x / y < 0" using assms by (simp add: divide_neg_pos)
  then show ?thesis by (simp add: js_rem_def js_trunc_def)
qed

lemma floor_rem_bounds:
  fixes x y :: real
  assumes "0 < y"
  shows "0 \<le> x - y * of_int \<lfloor>x / y\<rfloor>" "x - y * of_int \<lfloor>x / y\<rfloor> < y"
proof -
  have "of_int \<lfloor>x / y\<rfloor> * y \<le> (x / y) * y"
    by (rule mult_right_mono) (use assms in simp_all)
  then show "0 \<le> x - y * of_int \<lfloor>x / y\<rfloor>" using assms by (simp add: mult.commute)
  have "x / y < of_int \<lfloor>x / y\<rfloor> + 1" by linarith
  then have "(x / y) * y < (of_int \<lfloor>x / y\<rfloor> + 1) * y"
    using assms by (rule mult_strict_right_mono)
  then show "x - y * of_int \<lfloor>x / y\<rfloor> < y" using assms by (simp add: algebra_simps)
qed

lemma floor_rem_unique:
  fixes x y a :: real and k :: int
  assumes "0 < y" "0 \<le> a" "a < y" "a = x - y * of_int k"
  shows "k = \<lfloor>x / y\<rfloor>"
proof -
  have x: "x = a + y * of_int k" using assms(4) by simp
  have "x / y = a / y + of_int k" using assms(1) by (simp add: x add_divide_distrib)
  moreover have "0 \<le> a / y" "a / y < 1" using assms by simp_all
  ultimately have "of_int k \<le> x / y" "x / y < of_int k + 1" by linarith+
  then show ?thesis by linarith
qed

lemma wrap_bounds: "0 \<le> wrap x" "wrap x < pi * 2"
  using floor_rem_bounds[of "pi * 2" x] by (simp_all add: wrap_def)

lemma wrap_unique:
  assumes "0 \<le> a" "a < pi * 2" "a = x - (pi * 2) * of_int k"
  shows "wrap x = a"
proof -
  have "k = \<lfloor>x / (pi * 2)\<rfloor>"
    by (rule floor_rem_unique[of "pi * 2" a x k]) (use assms in simp_all)
  then show ?thesis using assms(3) by (simp add: wrap_def)
qed

lemma wrap_shift: "wrap (x + (pi * 2) * of_int k) = wrap x"
proof (rule wrap_unique[where k = "k + \<lfloor>x / (pi * 2)\<rfloor>"])
  show "0 \<le> wrap x" "wrap x < pi * 2" by (rule wrap_bounds)+
  show "wrap x = x + pi * 2 * real_of_int k - pi * 2 * real_of_int (k + \<lfloor>x / (pi * 2)\<rfloor>)"
    by (simp add: wrap_def algebra_simps)
qed

lemma js_rem_two_pi_nonneg: "0 \<le> x \<Longrightarrow> js_rem x (pi * 2) = wrap x"
  by (simp add: js_rem_nonneg wrap_def)

lemma js_rem_two_pi_cong:
  "\<exists>k::int. js_rem x (pi * 2) = x + (pi * 2) * of_int k"
proof -
  have "js_rem x (pi * 2) = x + (pi * 2) * of_int (- js_trunc (x / (pi * 2)))"
    by (simp add: js_rem_def)
  then show ?thesis by blast
qed

lemma js_rem_two_pi_lower: "- (pi * 2) < js_rem x (pi * 2)"
proof (cases "0 \<le> x")
  case True
  have "- (pi * 2) < 0" by simp
  also have "0 \<le> wrap x" by (rule wrap_bounds)
  finally show ?thesis using True by (simp add: js_rem_two_pi_nonneg)
next
  case False
  then have neg: "x < 0" by simp
  have "of_int \<lceil>x / (pi * 2)\<rceil> < x / (pi * 2) + 1" by linarith
  then have "of_int \<lceil>x / (pi * 2)\<rceil> * (pi * 2) < (x / (pi * 2) + 1) * (pi * 2)"
    by (rule mult_strict_right_mono) simp
  also have "\<dots> = x + pi * 2" by (simp add: field_simps)
  finally show ?thesis using neg by (simp add: js_rem_neg algebra_simps)
qed

lemma normalizedRotation_wrap: "normalizedRotation r = wrap r"
proof -
  obtain k :: int where k: "js_rem r (pi * 2) = r + (pi * 2) * of_int k"
    using js_rem_two_pi_cong by blast
  have pos: "0 \<le> js_rem r (pi * 2) + pi * 2"
    using js_rem_two_pi_lower[of r] by simp
  have "normalizedRotation r = wrap (js_rem r (pi * 2) + pi * 2)"
    unfolding normalizedRotation_def using pos by (rule js_rem_two_pi_nonneg)
  also have "\<dots> = wrap (r + (pi * 2) * of_int (k + 1))" by (simp add: k algebra_simps)
  also have "\<dots> = wrap r" by (rule wrap_shift)
  finally show ?thesis .
qed

lemma pointer_angle:
  "js_rem (topPosition - normalizedRotation r + pi * 2) (pi * 2) = wrap (3 * pi / 2 - r)"
proof -
  have lt: "wrap r < pi * 2" by (rule wrap_bounds)
  have "0 \<le> pi" by simp
  then have pos: "0 \<le> topPosition - normalizedRotation r + pi * 2"
    using lt unfolding normalizedRotation_wrap topPosition_def by linarith
  have "js_rem (topPosition - normalizedRotation r + pi * 2) (pi * 2)
          = wrap (topPosition - normalizedRotation r + pi * 2)"
    using pos by (rule js_rem_two_pi_nonneg)
  also have "\<dots> = wrap (3 * pi / 2 - r + (pi * 2) * of_int (\<lfloor>r / (pi * 2)\<rfloor> + 1))"
    by (simp add: normalizedRotation_wrap topPosition_def wrap_def algebra_simps)
  also have "\<dots> = wrap (3 * pi / 2 - r)" by (rule wrap_shift)
  finally show ?thesis .
qed

lemma floor_slice_bounds:
  assumes "0 < n" "0 \<le> a" "a < pi * 2"
  shows "0 \<le> \<lfloor>a / sliceAngle n\<rfloor>" "\<lfloor>a / sliceAngle n\<rfloor> < int n"
proof -
  have s: "0 < sliceAngle n" using assms(1) by (simp add: sliceAngle_def)
  have "0 \<le> a / sliceAngle n" using assms(2) s by simp
  then show "0 \<le> \<lfloor>a / sliceAngle n\<rfloor>" by simp
  have "a / sliceAngle n < (pi * 2) / sliceAngle n"
    using assms(3) s by (simp add: divide_strict_right_mono)
  also have "(pi * 2) / sliceAngle n = real n" using assms(1) by (simp add: sliceAngle_def)
  finally have "a / sliceAngle n < of_int (int n)" by simp
  then show "\<lfloor>a / sliceAngle n\<rfloor> < int n" by (simp only: floor_less_iff)
qed

lemma js_rem_small:
  assumes "0 \<le> k" "k < int n"
  shows "js_rem (of_int k) (real n) = of_int k"
proof -
  have n: "0 < real n" using assms by simp
  have "0 \<le> real_of_int k / real n" using assms by simp
  moreover have "real_of_int k / real n < 1" using assms n by simp
  ultimately have "\<lfloor>real_of_int k / real n\<rfloor> = 0" by linarith
  moreover have "0 \<le> real_of_int k" using assms by simp
  ultimately show ?thesis using n by (simp add: js_rem_nonneg)
qed

lemma winningIndex_eq:
  assumes "0 < n"
  shows "winningIndex r n = of_int \<lfloor>wrap (3 * pi / 2 - r) / sliceAngle n\<rfloor>"
  unfolding winningIndex_def slicesFromTop_def pointer_angle
  by (rule js_rem_small) (rule floor_slice_bounds[OF assms wrap_bounds])+

lemma getWinningItem_eq:
  assumes "recipes \<noteq> []"
  shows "getWinningItem r recipes =
           Inr (Some (name (recipes ! nat \<lfloor>wrap (3 * pi / 2 - r) / sliceAngle (length recipes)\<rfloor>)))"
proof -
  define k where "k = \<lfloor>wrap (3 * pi / 2 - r) / sliceAngle (length recipes)\<rfloor>"
  have n: "0 < length recipes" using assms by simp
  have b: "0 \<le> k" "k < int (length recipes)"
    unfolding k_def using floor_slice_bounds[OF n wrap_bounds] by simp_all
  have w: "winningIndex r (length recipes) = of_int k"
    unfolding k_def using n by (rule winningIndex_eq)
  have "array_get recipes (of_int k) = Inr (recipes ! nat k)"
    using b by (simp add: array_get_def)
  then show ?thesis using assms by (simp add: getWinningItem_def w k_def)
qed

subsection \<open>The index under the marker\<close>

lemma wrap_id:
  assumes "0 \<le> a" "a < pi * 2"
  shows "wrap a = a"
  by (rule wrap_unique[where k = 0]) (use assms in simp_all)

subsection \<open>The slices drawn\<close>

lemma length_drawSlices: "length (drawSlices palette recipes) = length recipes"
  by (simp add: drawSlices_def)

lemma nth_drawSlices:
  "i < length recipes \<Longrightarrow>
     drawSlices palette recipes ! i = drawSlice palette (length recipes) i (recipes ! i)"
  by (simp add: drawSlices_def nth_enumerate_eq)

lemma createWheel_drawn:
  assumes "appRef st" "2 \<le> length recipes" "length recipes \<le> 100"
  shows "wheelContainerRef (createWheel recipes st)
           = Some \<lparr>children = drawSlices COLORS recipes, rotation = 0\<rparr>"
  using assms by (simp add: createWheel_def)

subsection \<open>The index at particular rotations\<close>

lemma winningIndex_top:
  assumes "0 < n"
  shows "winningIndex (3 * pi / 2) n = 0"
proof -
  have "wrap (3 * pi / 2 - 3 * pi / 2) = 0" using wrap_id[of 0] by simp
  then show ?thesis using assms by (simp add: winningIndex_eq)
qed

lemma winningIndex_zero_four: "winningIndex 0 4 = 3"
proof -
  have "wrap (3 * pi / 2) = 3 * pi / 2" by (rule wrap_id) simp_all
  then have w: "wrap (3 * pi / 2 - 0) = 3 * pi / 2" by (simp only: diff_zero)
  have "wrap (3 * pi / 2 - 0) / sliceAngle 4 = (3 * pi / 2) / sliceAngle 4" by (simp only: w)
  also have "\<dots> = 3" by (simp add: sliceAngle_def)
  finally have "\<lfloor>wrap (3 * pi / 2 - 0) / sliceAngle 4\<rfloor> = 3" by simp
  moreover have "winningIndex 0 4 = of_int \<lfloor>wrap (3 * pi / 2 - 0) / sliceAngle 4\<rfloor>"
    by (rule winningIndex_eq) simp
  ultimately show ?thesis by simp
qed

lemma getWinningItem_at:
  assumes "k < length recipes" "winningIndex r (length recipes) = real k"
  shows "getWinningItem r recipes = Inr (Some (name (recipes ! k)))"
proof -
  have "recipes \<noteq> []" using assms(1) by auto
  then show ?thesis using assms by (simp add: getWinningItem_def array_get_def)
qed

lemma normalizedRotation_top: "normalizedRotation (3 * pi / 2) = 3 * pi / 2"
  unfolding normalizedRotation_wrap by (rule wrap_id) simp_all

subsection \<open>The slices cover the circle\<close>

lemma drawSlices_angles:
  assumes "i < length recipes"
  shows "startAngle (drawSlices palette recipes ! i) = (real i / real (length recipes)) * pi * 2"
    and "endAngle (drawSlices palette recipes ! i) = (real (i + 1) / real (length recipes)) * pi * 2"
    and "label (drawSlices palette recipes ! i) = name (recipes ! i)"
    and "fill (drawSlices palette recipes ! i) = palette ! (i mod length palette)"
  using assms by (simp_all add: nth_drawSlices drawSlice_def Let_def)

subsection \<open>Runs of the spin\<close>

lemma getWinningItem_total: "\<exists>winner. getWinningItem r recipes = Inr winner"
proof (cases "recipes = []")
  case True
  then show ?thesis by (simp add: getWinningItem_def)
next
  case False
  then show ?thesis using getWinningItem_eq[of recipes r] by blast
qed

lemma animate_unfold:
  "animate recipes an now st =
     (if progressAt an now < 1
      then Inr (st\<lparr>wheelContainerRef :=
                     map_option (\<lambda>w. w\<lparr>rotation := rotationAt an now\<rparr>) (wheelContainerRef st),
                   scheduled := scheduled st @ [an]\<rparr>)
      else case getWinningItem (rotationAt an now) recipes of
             Inl e \<Rightarrow> Inl e
           | Inr winner \<Rightarrow>
               Inr (st\<lparr>wheelContainerRef :=
                     map_option (\<lambda>w. w\<lparr>rotation := rotationAt an now\<rparr>) (wheelContainerRef st),
                   winningItem := winner, isSpinning := False\<rparr>))"
  unfolding animate_def Let_def progressAt_def rotationAt_def by simp

lemma animate_running:
  assumes "progressAt an now < 1"
  shows "animate recipes an now st =
           Inr (st\<lparr>wheelContainerRef :=
                     map_option (\<lambda>w. w\<lparr>rotation := rotationAt an now\<rparr>) (wheelContainerRef st),
                   scheduled := scheduled st @ [an]\<rparr>)"
  using assms by (simp add: animate_unfold)

lemma animate_done:
  assumes "\<not> progressAt an now < 1"
  shows "\<exists>winner. getWinningItem (rotationAt an now) recipes = Inr winner \<and>
           animate recipes an now st =
           Inr (st\<lparr>wheelContainerRef :=
                     map_option (\<lambda>w. w\<lparr>rotation := rotationAt an now\<rparr>) (wheelContainerRef st),
                   winningItem := winner, isSpinning := False\<rparr>)"
proof -
  obtain winner where w: "getWinningItem (rotationAt an now) recipes = Inr winner"
    using getWinningItem_total by blast
  then show ?thesis using assms by (simp add: animate_unfold)
qed

lemma animate_rotation:
  "\<exists>st'. animate recipes an now st = Inr st'
      \<and> map_option rotation (wheelContainerRef st')
          = map_option (\<lambda>_. rotationAt an now) (wheelContainerRef st)"
proof (cases "progressAt an now < 1")
  case True
  show ?thesis unfolding animate_running[OF True]
    by (simp add: option.map_comp comp_def)
next
  case False
  obtain winner where "animate recipes an now st =
           Inr (st\<lparr>wheelContainerRef :=
                     map_option (\<lambda>w. w\<lparr>rotation := rotationAt an now\<rparr>) (wheelContainerRef st),
                   winningItem := winner, isSpinning := False\<rparr>)"
    using animate_done[OF False] by blast
  then show ?thesis by (simp add: option.map_comp comp_def)
qed

lemma progressAt_done_iff: "\<not> progressAt an now < 1 \<longleftrightarrow> startTime an + 10000 \<le> now"
proof -
  have "(\<not> min x 1 < 1) = (1 \<le> x)" for x :: real by (auto simp: min_def)
  then have "(\<not> progressAt an now < 1) = (1 \<le> real_of_int (now - startTime an) / 10000)"
    by (simp only: progressAt_def spinDuration_def)
  also have "\<dots> = (10000 \<le> real_of_int (now - startTime an))"
    by (simp add: pos_le_divide_eq)
  also have "\<dots> = (10000 \<le> now - startTime an)" by linarith
  also have "\<dots> = (startTime an + 10000 \<le> now)" by linarith
  finally show ?thesis .
qed

lemma animate_ready:
  assumes "wheelContainerRef st \<noteq> None" "tickerRef st" "isSpinning st" "scheduled st = []"
  shows "\<exists>st'. animate recipes an now st = Inr st' \<and> ready st'
           \<and> (if progressAt an now < 1 then isSpinning st' \<and> scheduled st' = [an]
               else \<not> isSpinning st' \<and> scheduled st' = [])"
proof (cases "progressAt an now < 1")
  case True
  show ?thesis unfolding animate_running[OF True]
    using assms True by (auto simp: ready_def)
next
  case False
  obtain winner where "animate recipes an now st =
           Inr (st\<lparr>wheelContainerRef :=
                     map_option (\<lambda>w. w\<lparr>rotation := rotationAt an now\<rparr>) (wheelContainerRef st),
                   winningItem := winner, isSpinning := False\<rparr>)"
    using animate_done[OF False] by blast
  then show ?thesis using assms False by (auto simp: ready_def)
qed

lemma spin_ignored: "isSpinning st \<Longrightarrow> spin recipes random t0 now st = Inr st"
  by (simp add: spin_def)

lemma spin_starts:
  assumes "ready st" "\<not> isSpinning st" "recipes \<noteq> []"
  shows "\<exists>st'. spin recipes random t0 now st = Inr st' \<and> ready st'
           \<and> (if now < t0 + 10000
               then isSpinning st' \<and> winningItem st' = None
                    \<and> scheduled st' = [\<lparr>maxRotations = 10 + random, startTime = t0\<rparr>]
               else \<not> isSpinning st' \<and> scheduled st' = [])"
proof -
  let ?an = "\<lparr>maxRotations = 10 + random, startTime = t0\<rparr>"
  let ?st = "st\<lparr>isSpinning := True, winningItem := None\<rparr>"
  have s: "spin recipes random t0 now st = animate recipes ?an now ?st"
    using assms by (auto simp: spin_def ready_def)
  have p: "progressAt ?an now < 1 \<longleftrightarrow> now < t0 + 10000"
    using progressAt_done_iff[of ?an now] by auto
  have a: "wheelContainerRef ?st \<noteq> None" "tickerRef ?st" "isSpinning ?st" "scheduled ?st = []"
    using assms by (simp_all add: ready_def)
  show ?thesis
  proof (cases "now < t0 + 10000")
    case True
    then have r: "progressAt ?an now < 1" using p by simp
    show ?thesis unfolding s animate_running[OF r] using a True by (simp add: ready_def)
  next
    case False
    then have r: "\<not> progressAt ?an now < 1" using p by simp
    obtain winner where "animate recipes ?an now ?st =
           Inr (?st\<lparr>wheelContainerRef :=
                     map_option (\<lambda>w. w\<lparr>rotation := rotationAt ?an now\<rparr>) (wheelContainerRef ?st),
                   winningItem := winner, isSpinning := False\<rparr>)"
      using animate_done[OF r] by blast
    then show ?thesis unfolding s using a False by (simp add: ready_def)
  qed
qed

lemma spin_ready:
  assumes "ready st"
  shows "\<exists>st'. spin recipes random t0 now st = Inr st' \<and> ready st'"
proof (cases "isSpinning st \<or> recipes = []")
  case True
  then have "spin recipes random t0 now st = Inr st" by (auto simp: spin_def)
  then show ?thesis using assms by simp
next
  case False
  then show ?thesis using spin_starts[OF assms, of recipes random t0 now] by blast
qed

lemma frame_ready:
  assumes "ready st"
  shows "\<exists>st'. frame recipes now st = Inr st' \<and> ready st'
           \<and> (\<forall>an. scheduled st = [an] \<and> startTime an + 10000 \<le> now
                 \<longrightarrow> \<not> isSpinning st' \<and> scheduled st' = [])"
proof (cases "scheduled st")
  case Nil
  then have "frame recipes now st = Inr st" by (simp add: frame_def)
  then show ?thesis using assms Nil by simp
next
  case (Cons an ans)
  then have one: "scheduled st = [an]" "isSpinning st"
    using assms by (auto simp: ready_def)
  let ?st = "st\<lparr>scheduled := []\<rparr>"
  have "wheelContainerRef ?st \<noteq> None" "tickerRef ?st" "isSpinning ?st" "scheduled ?st = []"
    using assms one by (simp_all add: ready_def)
  then obtain st' where st': "animate recipes an now ?st = Inr st'" "ready st'"
      "if progressAt an now < 1 then isSpinning st' \<and> scheduled st' = [an]
       else \<not> isSpinning st' \<and> scheduled st' = []"
    using animate_ready[of ?st recipes an now] by blast
  have f: "frame recipes now st = Inr st'" by (simp add: frame_def one st')
  have "\<not> isSpinning st' \<and> scheduled st' = []" if "startTime an + 10000 \<le> now"
    using st'(3) that progressAt_done_iff[of an now] by simp
  then show ?thesis using f st'(2) one by auto
qed

lemma run_ready:
  assumes "ready st"
  shows "\<exists>st'. run recipes evs st = Inr st' \<and> ready st'"
  using assms
proof (induction evs arbitrary: st)
  case Nil
  then show ?case by simp
next
  case (Cons ev evs)
  have "\<exists>st1. step recipes ev st = Inr st1 \<and> ready st1"
  proof (cases ev)
    case (Click random t0 now)
    then show ?thesis using spin_ready[OF Cons.prems] by simp
  next
    case (Frame now)
    then show ?thesis using frame_ready[OF Cons.prems, of recipes now] by auto
  qed
  then obtain st1 where st1: "step recipes ev st = Inr st1" "ready st1" by blast
  then show ?case using Cons.IH[OF st1(2)] by simp
qed

lemma drawn_ready: "ready (createWheel initialRecipes mounted)"
  by (simp add: ready_def createWheel_def mounted_def initialRecipes_def)

subsection \<open>Rounding\<close>

lemma round_even_error: "\<bar>of_int (round_even m) - m\<bar> \<le> 1 / 2"
proof -
  have "of_int \<lfloor>m\<rfloor> \<le> m" "m < of_int \<lfloor>m\<rfloor> + 1" by linarith+
  then show ?thesis by (auto simp: round_even_def Let_def)
qed

lemma round_even_of_int: "round_even (of_int n) = n"
  by (simp add: round_even_def)

lemma round_even_unique:
  assumes "of_int n - 1 / 2 < m" "m < of_int n + 1 / 2"
  shows "round_even m = n"
proof -
  have e: "\<bar>of_int (round_even m) - m\<bar> \<le> 1 / 2" by (rule round_even_error)
  have "\<bar>real_of_int (round_even m) - of_int n\<bar> < 1" using e assms by linarith
  then have "\<bar>round_even m - n\<bar> < 1" by linarith
  then show ?thesis by linarith
qed

lemma two_powr_int: "(2::real) powr (of_int n) = 2 powi n"
  by (simp add: powr_real_of_int')

lemma two_powr_int_Suc: "(2::real) powr (of_int n + 1) = 2 powi (n + 1)"
  using two_powr_int[of "n + 1"] by simp

lemma floor_log2_iff:
  assumes "0 < a"
  shows "\<lfloor>log 2 a\<rfloor> = k \<longleftrightarrow> 2 powi k \<le> a \<and> a < 2 powi (k + 1)"
  using floor_log_eq_powr_iff[OF assms, of 2 k]
  by (simp only: two_powr_int two_powr_int_Suc)

lemma ulp_exp_bounds:
  assumes "x \<noteq> 0"
  shows "2 powi (ulp_exp x + 52) \<le> \<bar>x\<bar>" "\<bar>x\<bar> < 2 powi (ulp_exp x + 53)"
proof -
  have p: "0 < \<bar>x\<bar>" using assms by simp
  have "\<lfloor>log 2 \<bar>x\<bar>\<rfloor> = ulp_exp x + 52" by (simp add: ulp_exp_def)
  then have "2 powi (ulp_exp x + 52) \<le> \<bar>x\<bar> \<and> \<bar>x\<bar> < 2 powi (ulp_exp x + 52 + 1)"
    by (simp only: floor_log2_iff[OF p])
  then show "2 powi (ulp_exp x + 52) \<le> \<bar>x\<bar>" "\<bar>x\<bar> < 2 powi (ulp_exp x + 53)"
    by (simp_all add: add.assoc)
qed

lemma ulp_exp_unique:
  assumes "2 powi k \<le> \<bar>x\<bar>" "\<bar>x\<bar> < 2 powi (k + 1)"
  shows "ulp_exp x = k - 52"
proof -
  have "(0::real) < 2 powi k" by simp
  then have p: "0 < \<bar>x\<bar>" using assms(1) by linarith
  have "\<lfloor>log 2 \<bar>x\<bar>\<rfloor> = k"
    using assms by (simp only: floor_log2_iff[OF p])
  then show ?thesis by (simp add: ulp_exp_def)
qed

lemma rnd_eval:
  assumes "2 powi k \<le> \<bar>x\<bar>" "\<bar>x\<bar> < 2 powi (k + 1)"
      and "of_int n - 1 / 2 < x / 2 powi (k - 52)" "x / 2 powi (k - 52) < of_int n + 1 / 2"
  shows "rnd x = of_int n * 2 powi (k - 52)"
proof -
  have "(0::real) < 2 powi k" by simp
  then have "0 < \<bar>x\<bar>" using assms(1) by linarith
  then have "x \<noteq> 0" by auto
  moreover have "ulp_exp x = k - 52" using assms(1,2) by (rule ulp_exp_unique)
  moreover have "round_even (x / 2 powi (k - 52)) = n" using assms(3,4) by (rule round_even_unique)
  ultimately show ?thesis by (simp add: rnd_def)
qed

lemma round_even_tie:
  assumes "m = of_int f + 1 / 2"
  shows "round_even m = (if even f then f else f + 1)"
proof -
  have "\<lfloor>m\<rfloor> = f" unfolding assms by linarith
  then show ?thesis by (simp add: round_even_def assms)
qed

lemma rnd_eval_tie:
  assumes "2 powi k \<le> \<bar>x\<bar>" "\<bar>x\<bar> < 2 powi (k + 1)"
      and "x / 2 powi (k - 52) = of_int f + 1 / 2"
  shows "rnd x = of_int (if even f then f else f + 1) * 2 powi (k - 52)"
proof -
  have "(0::real) < 2 powi k" by simp
  then have "0 < \<bar>x\<bar>" using assms(1) by linarith
  then have "x \<noteq> 0" by auto
  moreover have "ulp_exp x = k - 52" using assms(1,2) by (rule ulp_exp_unique)
  moreover have "round_even (x / 2 powi (k - 52)) = (if even f then f else f + 1)"
    using assms(3) by (rule round_even_tie)
  ultimately show ?thesis by (simp only: rnd_def if_False)
qed

lemma rnd_exact:
  assumes "2 powi k \<le> \<bar>x\<bar>" "\<bar>x\<bar> < 2 powi (k + 1)" "x = of_int n * 2 powi (k - 52)"
  shows "rnd x = x"
proof -
  have "x / 2 powi (k - 52) = of_int n" using assms(3) by simp
  then have "rnd x = of_int n * 2 powi (k - 52)"
    using rnd_eval[OF assms(1,2), of n] by simp
  then show ?thesis using assms(3) by simp
qed

lemma rnd_error:
  "\<bar>rnd x - x\<bar> \<le> \<bar>x\<bar> / 2 ^ 53"
proof (cases "x = 0")
  case True
  then show ?thesis by (simp add: rnd_def)
next
  case False
  define e where "e = ulp_exp x"
  define m where "m = x / 2 powi e"
  have pe: "(0::real) < 2 powi e" by simp
  have x: "x = m * 2 powi e" by (simp add: m_def)
  have "rnd x - x = (of_int (round_even m) - m) * 2 powi e"
    using False by (simp add: rnd_def e_def[symmetric] m_def[symmetric] x[symmetric] algebra_simps)
  then have "\<bar>rnd x - x\<bar> = \<bar>of_int (round_even m) - m\<bar> * 2 powi e"
    by (simp add: abs_mult)
  also have "\<dots> \<le> (1 / 2) * 2 powi e"
    by (rule mult_right_mono[OF round_even_error]) simp
  also have "\<dots> = 2 powi (e + 52) / 2 ^ 53"
    by (simp add: power_int_add)
  also have "\<dots> \<le> \<bar>x\<bar> / 2 ^ 53"
    using ulp_exp_bounds(1)[OF False] by (simp add: e_def divide_right_mono)
  finally show ?thesis .
qed

lemma fl_twoPi_eq: "fl_twoPi = Math_PI * 2"
  unfolding fl_twoPi_def
  by (rule rnd_exact[where k = 2 and n = 7074237752028440]) (simp_all add: Math_PI_def)

lemma three_Math_PI: "rnd (3 * Math_PI) = 3 * Math_PI"
  by (rule rnd_exact[where k = 3 and n = 5305678314021330]) (simp_all add: Math_PI_def)

lemma fl_topPosition_eq: "fl_topPosition = 3 * Math_PI / 2"
  unfolding fl_topPosition_def three_Math_PI
  by (rule rnd_exact[where k = 2 and n = 5305678314021330]) (simp_all add: Math_PI_def)

lemma rnd_nonneg: "0 \<le> x \<Longrightarrow> 0 \<le> rnd x"
proof -
  assume x: "0 \<le> x"
  have "\<bar>rnd x - x\<bar> \<le> \<bar>x\<bar> / 2 ^ 53" by (rule rnd_error)
  moreover have "\<bar>x\<bar> / 2 ^ 53 \<le> \<bar>x\<bar>" by (simp add: divide_le_eq)
  ultimately show ?thesis using x by linarith
qed

lemma rnd_pos: "0 < x \<Longrightarrow> 0 < rnd x"
proof -
  assume x: "0 < x"
  have "\<bar>rnd x - x\<bar> \<le> \<bar>x\<bar> / 2 ^ 53" by (rule rnd_error)
  moreover have "\<bar>x\<bar> / 2 ^ 53 < \<bar>x\<bar>" using x by (simp add: divide_less_eq)
  ultimately show ?thesis using x by linarith
qed

lemma rnd_error_bound:
  assumes "\<bar>x\<bar> \<le> b"
  shows "\<bar>rnd x - x\<bar> \<le> b / 2 ^ 53"
proof -
  have "\<bar>rnd x - x\<bar> \<le> \<bar>x\<bar> / 2 ^ 53" by (rule rnd_error)
  also have "\<dots> \<le> b / 2 ^ 53" using assms by (simp add: divide_right_mono)
  finally show ?thesis .
qed

lemma js_rem_nonneg_range:
  assumes "0 \<le> x" "0 < c"
  shows "0 \<le> js_rem x c" "js_rem x c < c"
  using floor_rem_bounds[OF assms(2), of x] by (simp_all add: js_rem_nonneg[OF assms])

lemma js_rem_lower:
  assumes "0 < c"
  shows "- c < js_rem x c"
proof (cases "0 \<le> x")
  case True
  have "- c < 0" using assms by simp
  also have "0 \<le> js_rem x c" using True assms by (rule js_rem_nonneg_range)
  finally show ?thesis .
next
  case False
  then have neg: "x < 0" by simp
  have "of_int \<lceil>x / c\<rceil> < x / c + 1" by linarith
  then have "of_int \<lceil>x / c\<rceil> * c < (x / c + 1) * c"
    using assms by (rule mult_strict_right_mono)
  also have "\<dots> = x + c" using assms by (simp add: field_simps)
  finally show ?thesis using neg assms by (simp add: js_rem_neg algebra_simps)
qed

lemma js_rem_of_int_nonneg:
  assumes "0 \<le> k" "0 < n"
  shows "js_rem (of_int k) (real n) = of_int (k mod int n)"
proof -
  have "\<lfloor>real_of_int k / real n\<rfloor> = k div int n"
    using floor_divide_of_int_eq[of k "int n"] by simp
  moreover have "0 \<le> real_of_int k" "0 < real n" using assms by simp_all
  ultimately have "js_rem (of_int k) (real n) = of_int k - real n * of_int (k div int n)"
    by (simp add: js_rem_nonneg)
  also have "\<dots> = of_int (k - int n * (k div int n))" by simp
  also have "k - int n * (k div int n) = k mod int n"
    by (simp add: minus_mult_div_eq_mod)
  finally show ?thesis .
qed

lemma Math_PI_pos: "0 < Math_PI"
  by (simp add: Math_PI_def)

lemma fl_twoPi_pos: "0 < fl_twoPi"
  by (simp add: fl_twoPi_eq Math_PI_pos)

lemma fl_normalizedRotation_range:
  "0 \<le> fl_normalizedRotation r" "fl_normalizedRotation r < fl_twoPi"
proof -
  have "0 < js_rem r fl_twoPi + fl_twoPi"
    using js_rem_lower[OF fl_twoPi_pos, of r] by simp
  then have "0 \<le> rnd (js_rem r fl_twoPi + fl_twoPi)" using rnd_pos by fastforce
  then show "0 \<le> fl_normalizedRotation r" "fl_normalizedRotation r < fl_twoPi"
    unfolding fl_normalizedRotation_def using fl_twoPi_pos by (rule js_rem_nonneg_range)+
qed

lemma fl_pointerAngle_range:
  "0 \<le> fl_pointerAngle r" "fl_pointerAngle r < fl_twoPi"
proof -
  let ?c = "fl_twoPi"
  let ?d = "fl_topPosition - fl_normalizedRotation r"
  have c: "0 < ?c" by (rule fl_twoPi_pos)
  have top: "fl_topPosition = 3 * ?c / 4" by (simp add: fl_topPosition_eq fl_twoPi_eq)
  have n: "0 \<le> fl_normalizedRotation r" "fl_normalizedRotation r < ?c"
    by (rule fl_normalizedRotation_range)+
  have d: "- ?c / 4 < ?d" "?d \<le> 3 * ?c / 4" using n by (simp_all add: top)
  then have "\<bar>?d\<bar> \<le> 3 * ?c / 4" using c by linarith
  then have "\<bar>rnd ?d - ?d\<bar> \<le> (3 * ?c / 4) / 2 ^ 53" by (rule rnd_error_bound)
  moreover have "(3 * ?c / 4) / 2 ^ 53 \<le> 3 * ?c / 4" using c by (simp add: divide_le_eq)
  ultimately have "- ?c < rnd ?d" using d(1) c by linarith
  then have "0 < rnd ?d + ?c" by simp
  then have "0 \<le> rnd (rnd ?d + ?c)" using rnd_pos by fastforce
  then show "0 \<le> fl_pointerAngle r" "fl_pointerAngle r < fl_twoPi"
    unfolding fl_pointerAngle_def using c by (rule js_rem_nonneg_range)+
qed

lemma fl_sliceAngle_pos: "0 < n \<Longrightarrow> 0 < fl_sliceAngle n"
  unfolding fl_sliceAngle_def using fl_twoPi_pos by (intro rnd_pos) simp

lemma fl_slicesFromTop_eq:
  "fl_slicesFromTop r n = of_int \<lfloor>rnd (fl_pointerAngle r / fl_sliceAngle n)\<rfloor>"
  by (simp add: fl_slicesFromTop_def fl_pointerAngle_def)

lemma fl_winningIndex_mod:
  assumes "0 < n"
  shows "fl_winningIndex r n
           = of_int (\<lfloor>rnd (fl_pointerAngle r / fl_sliceAngle n)\<rfloor> mod int n)"
    and "0 \<le> \<lfloor>rnd (fl_pointerAngle r / fl_sliceAngle n)\<rfloor>"
proof -
  have "0 \<le> fl_pointerAngle r / fl_sliceAngle n"
    using fl_pointerAngle_range(1)[of r] fl_sliceAngle_pos[OF assms] by simp
  then have "0 \<le> rnd (fl_pointerAngle r / fl_sliceAngle n)" by (rule rnd_nonneg)
  then show k: "0 \<le> \<lfloor>rnd (fl_pointerAngle r / fl_sliceAngle n)\<rfloor>" by simp
  show "fl_winningIndex r n
           = of_int (\<lfloor>rnd (fl_pointerAngle r / fl_sliceAngle n)\<rfloor> mod int n)"
    unfolding fl_winningIndex_def fl_slicesFromTop_eq using k assms
    by (rule js_rem_of_int_nonneg)
qed

lemma fl_resolved_index:
  assumes "0 < n"
  shows "\<exists>k::nat. k < n \<and> fl_winningIndex r n = real k"
proof -
  define j where "j = \<lfloor>rnd (fl_pointerAngle r / fl_sliceAngle n)\<rfloor> mod int n"
  have b: "0 \<le> j" "j < int n" using assms by (simp_all add: j_def)
  have "fl_winningIndex r n = of_int j" unfolding j_def using assms by (rule fl_winningIndex_mod)
  then have "nat j < n \<and> fl_winningIndex r n = real (nat j)" using b by simp
  then show ?thesis by blast
qed

lemma fl_getWinningItem_at:
  assumes "k < length recipes" "fl_winningIndex r (length recipes) = real k"
  shows "fl_getWinningItem r recipes = Inr (Some (name (recipes ! k)))"
proof -
  have "recipes \<noteq> []" using assms(1) by auto
  then show ?thesis using assms by (simp add: fl_getWinningItem_def array_get_def)
qed

lemma fl_twoPi_bounds: "6 < fl_twoPi" "fl_twoPi < 7"
  by (simp_all add: fl_twoPi_eq Math_PI_def)

lemma js_rem_int_multiple: "\<exists>z::int. js_rem x c = x - c * of_int z"
  unfolding js_rem_def by blast

lemma js_rem_upper:
  assumes "0 < c"
  shows "js_rem x c < c"
proof (cases "0 \<le> x")
  case True
  then show ?thesis using assms by (rule js_rem_nonneg_range)
next
  case False
  then have neg: "x < 0" by simp
  have "x / c \<le> of_int \<lceil>x / c\<rceil>" by linarith
  then have "(x / c) * c \<le> of_int \<lceil>x / c\<rceil> * c"
    using assms by (intro mult_right_mono) simp_all
  then have "x \<le> c * of_int \<lceil>x / c\<rceil>" using assms by (simp add: mult.commute)
  then have "js_rem x c \<le> 0" using neg assms by (simp add: js_rem_neg)
  then show ?thesis using assms by linarith
qed

lemma fl_pointerAngle_error:
  "\<exists>E (Z::int). fl_pointerAngle r = (fl_topPosition - r) + E + fl_twoPi * of_int Z
      \<and> \<bar>E\<bar> \<le> 3 / 2 ^ 49"
proof -
  let ?c = "fl_twoPi"
  have c: "0 < ?c" "6 < ?c" "?c < 7" using fl_twoPi_pos fl_twoPi_bounds by simp_all
  have top: "fl_topPosition = 3 * ?c / 4" by (simp add: fl_topPosition_eq fl_twoPi_eq)
  define a1 where "a1 = js_rem r ?c"
  define u1 where "u1 = rnd (a1 + ?c)"
  define nrm where "nrm = js_rem u1 ?c"
  define t1 where "t1 = rnd (fl_topPosition - nrm)"
  define t2 where "t2 = rnd (t1 + ?c)"
  obtain z1 :: int where z1: "a1 = r - ?c * of_int z1"
    unfolding a1_def using js_rem_int_multiple by blast
  obtain z2 :: int where z2: "nrm = u1 - ?c * of_int z2"
    unfolding nrm_def using js_rem_int_multiple by blast
  obtain z3 :: int where z3: "js_rem t2 ?c = t2 - ?c * of_int z3"
    using js_rem_int_multiple by blast
  have n: "nrm = fl_normalizedRotation r"
    by (simp add: nrm_def u1_def a1_def fl_normalizedRotation_def)
  have x: "fl_pointerAngle r = js_rem t2 ?c"
    by (simp add: fl_pointerAngle_def t2_def t1_def n)
  have a1b: "- ?c < a1" "a1 < ?c"
    unfolding a1_def using js_rem_lower[OF c(1)] js_rem_upper[OF c(1)] by blast+
  then have "\<bar>a1 + ?c\<bar> \<le> 16" using c by linarith
  then have e1: "\<bar>u1 - (a1 + ?c)\<bar> \<le> 16 / 2 ^ 53"
    unfolding u1_def by (rule rnd_error_bound)
  have nb: "0 \<le> nrm" "nrm < ?c" unfolding n by (rule fl_normalizedRotation_range)+
  then have "\<bar>fl_topPosition - nrm\<bar> \<le> 16" unfolding top using c by linarith
  then have e2: "\<bar>t1 - (fl_topPosition - nrm)\<bar> \<le> 16 / 2 ^ 53"
    unfolding t1_def by (rule rnd_error_bound)
  have "\<bar>fl_topPosition - nrm\<bar> \<le> 3 * ?c / 4" unfolding top using nb c by linarith
  moreover have "(16::real) / 2 ^ 53 \<le> 1" by simp
  ultimately have "\<bar>t1 + ?c\<bar> \<le> 16" using e2 c by linarith
  then have e3: "\<bar>t2 - (t1 + ?c)\<bar> \<le> 16 / 2 ^ 53"
    unfolding t2_def by (rule rnd_error_bound)
  define E where "E = - (u1 - (a1 + ?c)) + (t1 - (fl_topPosition - nrm)) + (t2 - (t1 + ?c))"
  have "fl_pointerAngle r = (fl_topPosition - r) + E + ?c * of_int (z1 + z2 - z3)"
    unfolding x z3 E_def using z1 z2 by (simp add: algebra_simps)
  moreover have "\<bar>E\<bar> \<le> 3 / 2 ^ 49"
  proof -
    define h :: real where "h = 16 / 2 ^ 53"
    have "\<bar>E\<bar> \<le> 3 * h" unfolding E_def using e1 e2 e3 unfolding h_def[symmetric] by linarith
    then show ?thesis by (simp add: h_def)
  qed
  ultimately show ?thesis by blast
qed

lemma fl_wrap_bounds: "0 \<le> fl_wrap x" "fl_wrap x < fl_twoPi"
  using floor_rem_bounds[OF fl_twoPi_pos, of x] by (simp_all add: fl_wrap_def)

lemma int_multiple_small:
  fixes c :: real and z :: int
  assumes "0 < c" "\<bar>c * of_int z\<bar> < c"
  shows "z = 0"
proof -
  have "c * \<bar>real_of_int z\<bar> < c * 1" using assms by (simp add: abs_mult)
  then have "\<bar>real_of_int z\<bar> < 1" using assms(1) by (simp only: mult_less_cancel_left_pos)
  then show ?thesis by linarith
qed

lemma fl_pointerAngle_near:
  assumes "3 / 2 ^ 49 < fl_wrap (fl_topPosition - r)"
      and "fl_wrap (fl_topPosition - r) < fl_twoPi - 3 / 2 ^ 49"
  shows "\<bar>fl_pointerAngle r - fl_wrap (fl_topPosition - r)\<bar> \<le> 3 / 2 ^ 49"
proof -
  let ?c = "fl_twoPi"
  let ?A = "fl_wrap (fl_topPosition - r)"
  obtain E and Z :: int where E: "fl_pointerAngle r = (fl_topPosition - r) + E + ?c * of_int Z"
      "\<bar>E\<bar> \<le> 3 / 2 ^ 49"
    using fl_pointerAngle_error by blast
  define Y where "Y = Z + \<lfloor>(fl_topPosition - r) / ?c\<rfloor>"
  have d: "fl_pointerAngle r - (?A + E) = ?c * of_int Y"
    unfolding E(1) Y_def fl_wrap_def by (simp add: algebra_simps)
  have "0 < ?A + E" "?A + E < ?c" using assms E(2) by linarith+
  moreover have "0 \<le> fl_pointerAngle r" "fl_pointerAngle r < ?c"
    by (rule fl_pointerAngle_range)+
  ultimately have "\<bar>fl_pointerAngle r - (?A + E)\<bar> < ?c" by linarith
  then have "Y = 0" unfolding d using fl_twoPi_pos by (intro int_multiple_small)
  then have "fl_pointerAngle r = ?A + E" using d by simp
  then show ?thesis using E(2) by simp
qed

lemma fl_quotient_error:
  assumes "0 < n" "n \<le> 100" "0 \<le> x" "x < fl_twoPi"
  shows "\<bar>rnd (x / fl_sliceAngle n) - x * real n / fl_twoPi\<bar> \<le> 1 / 2 ^ 44"
proof -
  let ?c = "fl_twoPi"
  define u :: real where "u = 1 / 2 ^ 53"
  define w where "w = ?c / real n"
  define s where "s = fl_sliceAngle n"
  define y where "y = x / w"
  have c: "0 < ?c" by (rule fl_twoPi_pos)
  have n: "0 < real n" "real n \<le> 100" using assms(1,2) by simp_all
  have w: "0 < w" unfolding w_def using c n by simp
  have u: "0 < u" "1 / (1 - u) \<le> 1 + 2 * u" "1 - u \<le> 1 / (1 + u)" "0 < 1 - u" "0 < 1 + u"
    unfolding u_def by simp_all
  have yx: "y = x * real n / ?c" unfolding y_def w_def by simp
  have y0: "0 \<le> y" unfolding y_def using assms(3) w by simp
  have "y < real n"
  proof -
    have "x / w < ?c / w" using assms(4) w by (simp add: divide_strict_right_mono)
    also have "?c / w = real n" unfolding w_def using c n by simp
    finally show ?thesis unfolding y_def .
  qed
  then have y1: "y \<le> 100" using n by linarith
  have "\<bar>rnd w - w\<bar> \<le> \<bar>w\<bar> / 2 ^ 53" by (rule rnd_error)
  then have "\<bar>s - w\<bar> \<le> w * u"
    unfolding s_def fl_sliceAngle_def w_def[symmetric] u_def using w by simp
  then have s: "w * (1 - u) \<le> s" "s \<le> w * (1 + u)"
    by (simp_all add: algebra_simps)
  have wl: "0 < w * (1 - u)" using w u(4) by simp
  then have s0: "0 < s" using s(1) by linarith
  have "x / s \<le> x / (w * (1 - u))"
    using assms(3) wl s(1) by (intro frac_le) simp_all
  also have "\<dots> = y * (1 / (1 - u))" unfolding y_def by simp
  also have "\<dots> \<le> y * (1 + 2 * u)" using u(2) y0 by (rule mult_left_mono)
  also have "\<dots> = y + y * (2 * u)" by (simp add: algebra_simps)
  also have "\<dots> \<le> y + 100 * (2 * u)"
    using y1 u(1) by (intro add_left_mono mult_right_mono) simp_all
  finally have hi: "x / s \<le> y + 200 * u" by simp
  have "y - 100 * u \<le> y - y * u"
    using y1 u(1) by (simp add: mult_right_mono)
  also have "\<dots> = y * (1 - u)" by (simp add: algebra_simps)
  also have "\<dots> \<le> y * (1 / (1 + u))" using u(3) y0 by (rule mult_left_mono)
  also have "\<dots> = x / (w * (1 + u))" unfolding y_def by simp
  also have "\<dots> \<le> x / s"
    using assms(3) s0 s(2) by (intro frac_le) simp_all
  finally have lo: "y - 100 * u \<le> x / s" .
  have "0 \<le> x / s" using assms(3) s0 by simp
  moreover have "200 * u \<le> 1" unfolding u_def by simp
  ultimately have "\<bar>x / s\<bar> \<le> 101" using hi y1 by linarith
  then have "\<bar>rnd (x / s) - x / s\<bar> \<le> 101 / 2 ^ 53" by (rule rnd_error_bound)
  then have "\<bar>rnd (x / s) - x / s\<bar> \<le> 101 * u" unfolding u_def by simp
  then have "\<bar>rnd (x / s) - y\<bar> \<le> 301 * u" using hi lo by linarith
  moreover have "301 * u \<le> 1 / 2 ^ 44" unfolding u_def by simp
  ultimately show ?thesis unfolding s_def yx by linarith
qed

lemma fl_winningIndex_stable:
  assumes "0 < n" "n \<le> 100" "i < n"
      and "real i * fl_twoPi / real n + 1 / 2 ^ 39 \<le> fl_wrap (fl_topPosition - r)"
      and "fl_wrap (fl_topPosition - r) \<le> real (i + 1) * fl_twoPi / real n - 1 / 2 ^ 39"
  shows "fl_winningIndex r n = real i"
proof -
  let ?c = "fl_twoPi"
  define A where "A = fl_wrap (fl_topPosition - r)"
  define x where "x = fl_pointerAngle r"
  define q where "q = rnd (x / fl_sliceAngle n)"
  define m :: real where "m = 1 / 2 ^ 39"
  define h :: real where "h = 1 / 2 ^ 49"
  have c: "0 < ?c" "6 < ?c" "?c < 7" using fl_twoPi_pos fl_twoPi_bounds by simp_all
  have n: "0 < real n" "1 \<le> real n" "real n \<le> 100" using assms(1,2) by simp_all
  have mh: "3 * h < m" "50 * h + 1 / 2 ^ 44 < m / 7" unfolding m_def h_def by simp_all
  have lo: "real i * ?c / real n + m \<le> A" and hi: "A \<le> real (i + 1) * ?c / real n - m"
    using assms(4,5) unfolding A_def m_def by simp_all
  have "0 \<le> real i * ?c / real n" using c n by simp
  then have A0: "3 * h < A" using lo mh(1) by linarith
  have "real (i + 1) / real n \<le> 1" using assms(3) n by simp
  then have "real (i + 1) / real n * ?c \<le> 1 * ?c"
    using c(1) by (intro mult_right_mono) simp_all
  then have "real (i + 1) * ?c / real n \<le> ?c" by simp
  then have A1: "A < ?c - 3 * h" using hi mh(1) by linarith
  have xA: "\<bar>x - A\<bar> \<le> 3 * h"
    using fl_pointerAngle_near[of r] A0 A1 unfolding A_def x_def h_def by simp
  have x0: "0 \<le> x" "x < ?c" unfolding x_def by (rule fl_pointerAngle_range)+
  have qy: "\<bar>q - x * real n / ?c\<bar> \<le> 1 / 2 ^ 44"
    unfolding q_def using assms(1,2) x0 by (rule fl_quotient_error)
  have nc: "0 < real n / ?c" "1 / 7 \<le> real n / ?c" "real n / ?c \<le> 50 / 3"
    using c n by (simp_all add: field_simps)
  have "x * real n / ?c - A * real n / ?c = (x - A) * (real n / ?c)"
    by (simp add: algebra_simps diff_divide_distrib)
  then have "\<bar>x * real n / ?c - A * real n / ?c\<bar> = \<bar>x - A\<bar> * \<bar>real n / ?c\<bar>"
    by (simp only: abs_mult)
  also have "\<bar>real n / ?c\<bar> = real n / ?c" using nc(1) by (simp only: abs_of_pos)
  finally have "\<bar>x * real n / ?c - A * real n / ?c\<bar> = \<bar>x - A\<bar> * (real n / ?c)" .
  also have "\<dots> \<le> (3 * h) * (50 / 3)"
  proof (rule mult_mono[OF xA nc(3)])
    show "0 \<le> 3 * h" unfolding h_def by simp
    show "0 \<le> real n / ?c" using nc(1) by linarith
  qed
  finally have yA: "\<bar>x * real n / ?c - A * real n / ?c\<bar> \<le> 50 * h" by simp
  have m0: "0 \<le> m" unfolding m_def by simp
  have "m * (1 / 7) \<le> m * (real n / ?c)" using nc(2) m0 by (rule mult_left_mono)
  then have m7: "m / 7 \<le> m * (real n / ?c)" by simp
  note m7
  also have "m * (real n / ?c) \<le> (A - real i * ?c / real n) * (real n / ?c)"
    using lo nc(1) by (intro mult_right_mono) simp_all
  also have "\<dots> = A * real n / ?c - real i"
    using c n by (simp add: field_simps)
  finally have Alo: "real i + m / 7 \<le> A * real n / ?c" by linarith
  note m7
  also have "m * (real n / ?c) \<le> (real (i + 1) * ?c / real n - A) * (real n / ?c)"
    using hi nc(1) by (intro mult_right_mono) simp_all
  also have "\<dots> = real (i + 1) - A * real n / ?c"
    using c n by (simp add: field_simps)
  finally have Ahi: "A * real n / ?c \<le> real i + 1 - m / 7" by (simp only: of_nat_add of_nat_1)
  have "real i \<le> q" "q < real i + 1" using qy yA Alo Ahi mh(2) by linarith+
  then have "\<lfloor>q\<rfloor> = int i" by linarith
  then have "fl_winningIndex r n = of_int (int i mod int n)"
    using fl_winningIndex_mod(1)[OF assms(1), of r] unfolding q_def x_def by simp
  also have "int i mod int n = int i" using assms(3) by simp
  finally show ?thesis by simp
qed

lemma length_fl_drawSlices: "length (fl_drawSlices recipes) = length recipes"
  by (simp add: fl_drawSlices_def)

lemma nth_fl_drawSlices:
  assumes "i < length recipes"
  shows "fl_startAngle (fl_drawSlices recipes ! i) = fl_angle (length recipes) i"
    and "fl_endAngle (fl_drawSlices recipes ! i) = fl_angle (length recipes) (i + 1)"
    and "fl_label (fl_drawSlices recipes ! i) = name (recipes ! i)"
  using assms by (simp_all add: fl_drawSlices_def fl_drawSlice_def nth_enumerate_eq)

lemma fl_angle_error:
  assumes "0 < n" "j \<le> n"
  shows "\<bar>fl_angle n j - real j * fl_twoPi / real n\<bar> \<le> 1 / 2 ^ 47"
proof -
  define u :: real where "u = 1 / 2 ^ 53"
  define v0 where "v0 = real j / real n"
  define v1 where "v1 = rnd v0"
  define v2 where "v2 = rnd (v1 * Math_PI)"
  define v3 where "v3 = rnd (v2 * 2)"
  have P: "0 < Math_PI" "Math_PI < 4" by (simp_all add: Math_PI_def)
  have u: "0 < u" "u \<le> 1 / 4" unfolding u_def by simp_all
  have v0: "0 \<le> v0" "v0 \<le> 1" unfolding v0_def using assms by simp_all
  then have "\<bar>v0\<bar> \<le> 1" by simp
  then have "\<bar>v1 - v0\<bar> \<le> 1 / 2 ^ 53" unfolding v1_def by (rule rnd_error_bound)
  then have e1: "\<bar>v1 - v0\<bar> \<le> u" unfolding u_def by simp
  have "\<bar>v1 * Math_PI - v0 * Math_PI\<bar> = \<bar>v1 - v0\<bar> * Math_PI"
    using P(1) by (simp add: abs_mult flip: left_diff_distrib)
  also have "\<dots> \<le> u * 4"
    using e1 P by (intro mult_mono) simp_all
  finally have e1p: "\<bar>v1 * Math_PI - v0 * Math_PI\<bar> \<le> 4 * u" by simp
  have "0 \<le> v0 * Math_PI" "v0 * Math_PI \<le> 1 * 4"
    using v0 P by (simp, intro mult_mono) simp_all
  then have "\<bar>v1 * Math_PI\<bar> \<le> 8" using e1p u by linarith
  then have "\<bar>v2 - v1 * Math_PI\<bar> \<le> 8 / 2 ^ 53" unfolding v2_def by (rule rnd_error_bound)
  then have e2: "\<bar>v2 - v1 * Math_PI\<bar> \<le> 8 * u" unfolding u_def by simp
  have "\<bar>v2 * 2\<bar> \<le> 32" using e2 e1p \<open>\<bar>v1 * Math_PI\<bar> \<le> 8\<close> u by linarith
  then have "\<bar>v3 - v2 * 2\<bar> \<le> 32 / 2 ^ 53" unfolding v3_def by (rule rnd_error_bound)
  then have e3: "\<bar>v3 - v2 * 2\<bar> \<le> 32 * u" unfolding u_def by simp
  have "\<bar>v3 - v0 * Math_PI * 2\<bar> \<le> 56 * u" using e1p e2 e3 by linarith
  moreover have "v0 * Math_PI * 2 = real j * fl_twoPi / real n"
    by (simp add: v0_def fl_twoPi_eq)
  moreover have "v3 = fl_angle n j" by (simp add: v3_def v2_def v1_def v0_def fl_angle_def)
  moreover have "56 * u \<le> 1 / 2 ^ 47" unfolding u_def by simp
  ultimately show ?thesis by linarith
qed

lemma fl_wrap_unique:
  assumes "0 \<le> a" "a < fl_twoPi" "a = x - fl_twoPi * of_int k"
  shows "fl_wrap x = a"
proof -
  have "k = \<lfloor>x / fl_twoPi\<rfloor>"
    by (rule floor_rem_unique[of fl_twoPi a x k]) (use assms fl_twoPi_pos in simp_all)
  then show ?thesis using assms(3) by (simp add: fl_wrap_def)
qed

lemma fl_wrap_id:
  assumes "0 \<le> a" "a < fl_twoPi"
  shows "fl_wrap a = a"
  by (rule fl_wrap_unique[where k = 0]) (use assms in simp_all)

lemma fl_fraction_bounds:
  assumes "0 < n" "j \<le> n"
  shows "0 \<le> real j * fl_twoPi / real n" "real j * fl_twoPi / real n \<le> fl_twoPi"
proof -
  have c: "0 < fl_twoPi" by (rule fl_twoPi_pos)
  show "0 \<le> real j * fl_twoPi / real n" using c by simp
  have "real j / real n \<le> 1" using assms by simp
  then have "real j / real n * fl_twoPi \<le> 1 * fl_twoPi"
    using c by (intro mult_right_mono) simp_all
  then show "real j * fl_twoPi / real n \<le> fl_twoPi" by simp
qed

lemma fl_resolve_inside:
  assumes "0 < n" "n \<le> 100" "i < n"
      and "fl_angle n i + 1 / 10 ^ 11 \<le> a" "a \<le> fl_angle n (i + 1) - 1 / 10 ^ 11"
  shows "fl_winningIndex (rnd (fl_topPosition - a)) n = real i"
proof -
  let ?c = "fl_twoPi"
  define r where "r = rnd (fl_topPosition - a)"
  define e where "e = r - (fl_topPosition - a)"
  define d :: real where "d = 1 / 10 ^ 11"
  define g :: real where "g = 1 / 2 ^ 47"
  define h :: real where "h = 1 / 2 ^ 49"
  define m :: real where "m = 1 / 2 ^ 39"
  have c: "0 < ?c" "6 < ?c" "?c < 7" using fl_twoPi_pos fl_twoPi_bounds by simp_all
  have top: "fl_topPosition = 3 * ?c / 4" by (simp add: fl_topPosition_eq fl_twoPi_eq)
  have k: "m + g + h \<le> d" "0 < g" "0 < h" "0 < m" "d \<le> 1"
    unfolding m_def g_def h_def d_def by simp_all
  have S: "\<bar>fl_angle n i - real i * ?c / real n\<bar> \<le> g"
    unfolding g_def using assms(1,3) by (intro fl_angle_error) simp_all
  have E: "\<bar>fl_angle n (i + 1) - real (i + 1) * ?c / real n\<bar> \<le> g"
    unfolding g_def using assms(1,3) by (intro fl_angle_error) simp_all
  have f0: "0 \<le> real i * ?c / real n" "real (i + 1) * ?c / real n \<le> ?c"
    using fl_fraction_bounds[OF assms(1), of i] fl_fraction_bounds[OF assms(1), of "i + 1"] assms(3)
    by simp_all
  have lo: "fl_angle n i + d \<le> a" and hi: "a \<le> fl_angle n (i + 1) - d"
    using assms(4,5) unfolding d_def by simp_all
  have a: "0 < a" "a < ?c" using lo hi S E f0 k by linarith+
  then have "\<bar>fl_topPosition - a\<bar> \<le> 16" unfolding top using c by linarith
  then have "\<bar>r - (fl_topPosition - a)\<bar> \<le> 16 / 2 ^ 53"
    unfolding r_def by (rule rnd_error_bound)
  then have e: "\<bar>e\<bar> \<le> h" unfolding e_def h_def by simp
  have tr: "fl_topPosition - r = a - e" unfolding e_def by simp
  have "0 \<le> a - e" "a - e < ?c" using lo hi S E f0 k e by linarith+
  then have w: "fl_wrap (fl_topPosition - r) = a - e" unfolding tr by (rule fl_wrap_id)
  have "real i * ?c / real n + m \<le> a - e" "a - e \<le> real (i + 1) * ?c / real n - m"
    using lo hi S E k e by linarith+
  then have "fl_winningIndex r n = real i"
    using fl_winningIndex_stable[OF assms(1-3), of r] unfolding w m_def by simp
  then show ?thesis unfolding r_def .
qed

lemma rnd_zero: "rnd 0 = 0"
  by (simp add: rnd_def)

lemma rnd_one: "rnd 1 = 1"
  by (rule rnd_exact[where k = 0 and n = 4503599627370496]) simp_all

lemma rnd_Math_PI: "rnd Math_PI = Math_PI"
  by (rule rnd_exact[where k = 1 and n = 7074237752028440]) (simp_all add: Math_PI_def)

lemma fl_angle_zero: "fl_angle n 0 = 0"
  by (simp add: fl_angle_def rnd_zero)

lemma fl_angle_full:
  assumes "0 < n"
  shows "fl_angle n n = fl_twoPi"
proof -
  have "real n / real n = 1" using assms by simp
  then show ?thesis by (simp add: fl_angle_def rnd_one rnd_Math_PI fl_twoPi_def)
qed

lemma fl_angle_step:
  assumes "0 < n" "n \<le> 100" "j < n"
  shows "fl_angle n j < fl_angle n (j + 1)"
    and "\<bar>fl_angle n (j + 1) - fl_angle n j - fl_twoPi / real n\<bar> \<le> 1 / 2 ^ 46"
proof -
  let ?c = "fl_twoPi"
  define g :: real where "g = 1 / 2 ^ 47"
  have g: "2 * g < 6 / 100" "2 * g = 1 / 2 ^ 46" unfolding g_def by simp_all
  have n: "0 < real n" "real n \<le> 100" using assms(1,2) by simp_all
  define p where "p = real j * ?c / real n"
  define q where "q = real (j + 1) * ?c / real n"
  define w where "w = ?c / real n"
  have a: "\<bar>fl_angle n j - p\<bar> \<le> g"
    unfolding g_def p_def using assms(1,3) by (intro fl_angle_error) simp_all
  have b: "\<bar>fl_angle n (j + 1) - q\<bar> \<le> g"
    unfolding g_def q_def using assms(1,3) by (intro fl_angle_error) simp_all
  have d: "q - p = w"
    unfolding p_def q_def w_def by (simp add: algebra_simps add_divide_distrib)
  have "6 / 100 \<le> 6 / real n" using n by (intro divide_left_mono) simp_all
  also have "\<dots> < ?c / real n" using fl_twoPi_bounds(1) n by (simp add: divide_strict_right_mono)
  finally have w: "6 / 100 < w" unfolding w_def .
  show "fl_angle n j < fl_angle n (j + 1)" using a b d w g(1) by linarith
  have "\<bar>fl_angle n (j + 1) - fl_angle n j - w\<bar> \<le> 2 * g" using a b d by linarith
  then show "\<bar>fl_angle n (j + 1) - fl_angle n j - ?c / real n\<bar> \<le> 1 / 2 ^ 46"
    unfolding g(2) w_def .
qed

lemma increasing_upto:
  fixes f :: "nat \<Rightarrow> real"
  assumes "\<And>j. j < n \<Longrightarrow> f j < f (j + 1)"
  shows "i \<le> j \<Longrightarrow> j \<le> n \<Longrightarrow> f i \<le> f j"
proof (induction j)
  case 0
  then show ?case by simp
next
  case (Suc j)
  show ?case
  proof (cases "i = Suc j")
    case True
    then show ?thesis by simp
  next
    case False
    then have "i \<le> j" "j \<le> n" "j < n" using Suc.prems by simp_all
    then have "f i \<le> f j" "f j < f (j + 1)" using Suc.IH assms by blast+
    then show ?thesis by simp
  qed
qed

lemma cover_once:
  fixes f :: "nat \<Rightarrow> real"
  assumes "\<And>j. j < n \<Longrightarrow> f j < f (j + 1)" "f 0 \<le> x" "x < f n"
  shows "\<exists>!i. i < n \<and> f i \<le> x \<and> x < f (i + 1)"
proof -
  have n: "0 < n" using assms(2,3) by (cases n) auto
  define i where "i = (LEAST k. x < f (k + 1))"
  have ex: "x < f ((n - 1) + 1)" using assms(3) n by simp
  have up: "x < f (i + 1)" unfolding i_def using ex by (rule LeastI)
  have "i \<le> n - 1" unfolding i_def using ex by (rule Least_le)
  then have lt: "i < n" using n by simp
  have lo: "f i \<le> x"
  proof (cases i)
    case 0
    then show ?thesis using assms(2) by simp
  next
    case (Suc k)
    then have "k < i" by simp
    then have "\<not> x < f (k + 1)" unfolding i_def by (rule not_less_Least)
    then show ?thesis using Suc by simp
  qed
  show ?thesis
  proof (rule ex1I[of _ i])
    show "i < n \<and> f i \<le> x \<and> x < f (i + 1)" using lt lo up by simp
  next
    fix k
    assume k: "k < n \<and> f k \<le> x \<and> x < f (k + 1)"
    show "k = i"
    proof (rule ccontr)
      assume "k \<noteq> i"
      then consider "k + 1 \<le> i" | "i + 1 \<le> k" by linarith
      then show False
      proof cases
        case 1
        then have "f (k + 1) \<le> f i" using lt by (intro increasing_upto[where f = f and n = n, OF assms(1)]) simp_all
        then show False using k lo by linarith
      next
        case 2
        then have "f (i + 1) \<le> f k" using k by (intro increasing_upto[where f = f and n = n, OF assms(1)]) simp_all
        then show False using k up by linarith
      qed
    qed
  qed
qed

lemma fl_periodic_inside:
  assumes "0 < n" "n \<le> 100" "i < n" "\<bar>r\<bar> \<le> 1000"
      and "real i * fl_twoPi / real n + 1 / 10 ^ 11 \<le> fl_wrap (fl_topPosition - r)"
      and "fl_wrap (fl_topPosition - r) \<le> real (i + 1) * fl_twoPi / real n - 1 / 10 ^ 11"
  shows "fl_winningIndex r n = real i" "fl_winningIndex (rnd (r + fl_twoPi)) n = real i"
proof -
  let ?c = "fl_twoPi"
  define A where "A = fl_wrap (fl_topPosition - r)"
  define r' where "r' = rnd (r + ?c)"
  define e where "e = r' - (r + ?c)"
  define d :: real where "d = 1 / 10 ^ 11"
  define h :: real where "h = 1 / 2 ^ 43"
  define m :: real where "m = 1 / 2 ^ 39"
  have c: "0 < ?c" "6 < ?c" "?c < 7" using fl_twoPi_pos fl_twoPi_bounds by simp_all
  have k: "m + h \<le> d" "0 < h" "0 < m" unfolding m_def h_def d_def by simp_all
  have lo: "real i * ?c / real n + d \<le> A" and hi: "A \<le> real (i + 1) * ?c / real n - d"
    using assms(5,6) unfolding A_def d_def by simp_all
  have f0: "0 \<le> real i * ?c / real n" "real (i + 1) * ?c / real n \<le> ?c"
    using fl_fraction_bounds[OF assms(1), of i] fl_fraction_bounds[OF assms(1), of "i + 1"] assms(3)
    by simp_all
  have "real i * ?c / real n + m \<le> A" "A \<le> real (i + 1) * ?c / real n - m"
    using lo hi k by linarith+
  then show "fl_winningIndex r n = real i"
    using fl_winningIndex_stable[OF assms(1-3), of r] unfolding A_def m_def by simp
  have "\<bar>r + ?c\<bar> \<le> 1024" using assms(4) c by linarith
  then have "\<bar>r' - (r + ?c)\<bar> \<le> 1024 / 2 ^ 53" unfolding r'_def by (rule rnd_error_bound)
  then have e: "\<bar>e\<bar> \<le> h" unfolding e_def h_def by simp
  define z where "z = \<lfloor>(fl_topPosition - r) / ?c\<rfloor> + 1"
  have "A - e = (fl_topPosition - r') - ?c * of_int (z - 2)"
    unfolding A_def fl_wrap_def e_def z_def by (simp add: algebra_simps)
  moreover have "0 \<le> A - e" "A - e < ?c" using lo hi f0 k e by linarith+
  ultimately have w: "fl_wrap (fl_topPosition - r') = A - e"
    by (intro fl_wrap_unique[where k = "z - 2"]) simp_all
  have "real i * ?c / real n + m \<le> A - e" "A - e \<le> real (i + 1) * ?c / real n - m"
    using lo hi k e by linarith+
  then have "fl_winningIndex r' n = real i"
    using fl_winningIndex_stable[OF assms(1-3), of r'] unfolding w m_def by simp
  then show "fl_winningIndex (rnd (r + fl_twoPi)) n = real i" unfolding r'_def .
qed

subsection \<open>The claims\<close>

text \<open>
  C10. With no recipes at all, \<^verbatim>\<open>getWinningItem\<close> returns \<^verbatim>\<open>null\<close> at every
  rotation: it neither throws nor computes an index.
\<close>

theorem getWinningItem_empty: "getWinningItem finalRotation [] = Inr None"
  by (simp add: getWinningItem_def)

text \<open>
  C4 (as amended). For the four labels A, B, C, D the slice angle is \<open>\<pi>/2\<close>. The rotation
  \<open>3\<pi>/2\<close> is its own normalisation, so the angle under the marker is 0, the winning
  index is 0 and the winner is A. It is at the rotation 0 that the winning index is 3 and
  the winner is D.
\<close>

theorem getWinningItem_ABCD_top_and_zero:
  "sliceAngle 4 = pi / 2
   \<and> normalizedRotation (3 * pi / 2) = 3 * pi / 2
   \<and> winningIndex (3 * pi / 2) 4 = 0
   \<and> getWinningItem (3 * pi / 2)
         [\<lparr>name = ''A''\<rparr>, \<lparr>name = ''B''\<rparr>, \<lparr>name = ''C''\<rparr>, \<lparr>name = ''D''\<rparr>] = Inr (Some ''A'')
   \<and> winningIndex 0 4 = 3
   \<and> getWinningItem 0
         [\<lparr>name = ''A''\<rparr>, \<lparr>name = ''B''\<rparr>, \<lparr>name = ''C''\<rparr>, \<lparr>name = ''D''\<rparr>] = Inr (Some ''D'')"
proof -
  let ?labels = "[\<lparr>name = ''A''\<rparr>, \<lparr>name = ''B''\<rparr>, \<lparr>name = ''C''\<rparr>, \<lparr>name = ''D''\<rparr>]"
  have len: "length ?labels = 4" by simp
  have top: "winningIndex (3 * pi / 2) (length ?labels) = real 0"
    unfolding len by (simp add: winningIndex_top)
  have zero: "winningIndex 0 (length ?labels) = real 3"
    unfolding len by (simp add: winningIndex_zero_four)
  have "getWinningItem (3 * pi / 2) ?labels = Inr (Some (name (?labels ! 0)))"
    by (rule getWinningItem_at[OF _ top]) simp
  moreover have "getWinningItem 0 ?labels = Inr (Some (name (?labels ! 3)))"
    by (rule getWinningItem_at[OF _ zero]) simp
  moreover have "sliceAngle 4 = pi / 2" by (simp add: sliceAngle_def)
  ultimately show ?thesis
    by (simp add: winningIndex_top winningIndex_zero_four normalizedRotation_top)
qed

text \<open>
  The claim as stated, that the rotation \<open>3\<pi>/2\<close> gives index 3 and the winner D, fails.
\<close>

theorem getWinningItem_ABCD_top_counterexample:
  "getWinningItem (3 * pi / 2)
         [\<lparr>name = ''A''\<rparr>, \<lparr>name = ''B''\<rparr>, \<lparr>name = ''C''\<rparr>, \<lparr>name = ''D''\<rparr>] \<noteq> Inr (Some ''D'')
   \<and> winningIndex (3 * pi / 2) 4 \<noteq> 3"
proof -
  let ?labels = "[\<lparr>name = ''A''\<rparr>, \<lparr>name = ''B''\<rparr>, \<lparr>name = ''C''\<rparr>, \<lparr>name = ''D''\<rparr>]"
  have len: "length ?labels = 4" by simp
  have top: "winningIndex (3 * pi / 2) (length ?labels) = real 0"
    unfolding len by (simp add: winningIndex_top)
  have "getWinningItem (3 * pi / 2) ?labels = Inr (Some (name (?labels ! 0)))"
    by (rule getWinningItem_at[OF _ top]) simp
  then show ?thesis by (simp add: winningIndex_top)
qed

text \<open>
  C8. The easing curve \<open>1 - (1 - t)\<^sup>3\<close> is non-decreasing on \<open>[0, 1]\<close>, is 0 at 0 and is 1
  at 1.
\<close>

theorem easeOut_monotone:
  assumes "0 \<le> s" "s \<le> t" "t \<le> 1"
  shows "easeOut s \<le> easeOut t \<and> easeOut 0 = 0 \<and> easeOut 1 = 1"
proof -
  have "(1 - t) ^ 3 \<le> (1 - s) ^ 3"
    by (rule power_mono) (use assms in simp_all)
  then show ?thesis by (simp add: easeOut_def)
qed

theorem easeOut_monotone_witness:
  "(0::real) \<le> 1 / 4 \<and> (1 / 4 :: real) \<le> 1 / 2 \<and> (1 / 2 :: real) \<le> 1
   \<and> easeOut (1 / 4) \<le> easeOut (1 / 2) \<and> easeOut (1 / 4) = 37 / 64 \<and> easeOut (1 / 2) = 7 / 8
   \<and> easeOut 0 = 0 \<and> easeOut 1 = 1"
proof -
  have h: "(0::real) \<le> 1 / 4" "(1 / 4 :: real) \<le> 1 / 2" "(1 / 2 :: real) \<le> 1" by simp_all
  have "easeOut (1 / 4) = 37 / 64" "easeOut (1 / 2) = 7 / 8"
    by (simp_all add: easeOut_def power3_eq_cube)
  then show ?thesis using easeOut_monotone[OF h] by simp
qed

text \<open>
  C9. The colour of the slice at \<open>index\<close> is the palette entry at \<open>index mod paletteSize\<close>,
  for every index and every palette that has a colour at all. That position is always
  inside the palette, it is \<open>index\<close> itself below the palette size, and the slice
  \<open>paletteSize\<close> places further on has the same colour: the colours cycle through the
  palette in order, also when there are more slices than colours. The component's palette
  is \<^const>\<open>COLORS\<close>, of size 10.
\<close>

theorem slice_color_cycles:
  assumes "palette \<noteq> []" "index < length recipes"
  shows "fill (drawSlices palette recipes ! index) = palette ! (index mod length palette)
         \<and> index mod length palette < length palette
         \<and> (index < length palette \<longrightarrow> fill (drawSlices palette recipes ! index) = palette ! index)
         \<and> (index + length palette < length recipes \<longrightarrow>
               fill (drawSlices palette recipes ! (index + length palette))
                 = fill (drawSlices palette recipes ! index))
         \<and> length COLORS = 10
         \<and> (appRef st \<and> 2 \<le> length recipes \<and> length recipes \<le> 100 \<longrightarrow>
               (\<exists>w. wheelContainerRef (createWheel recipes st) = Some w
                  \<and> fill (children w ! index) = COLORS ! (index mod length COLORS)))"
proof -
  have f: "fill (drawSlices palette recipes ! index) = palette ! (index mod length palette)"
    using assms(2) by (rule drawSlices_angles)
  have r: "index mod length palette < length palette" using assms(1) by simp
  have s: "fill (drawSlices palette recipes ! index) = palette ! index"
    if "index < length palette" using that by (simp add: f)
  have c: "fill (drawSlices palette recipes ! (index + length palette))
             = fill (drawSlices palette recipes ! index)"
    if "index + length palette < length recipes"
    using that by (simp add: f drawSlices_angles(4))
  have l: "length COLORS = 10" by (simp add: COLORS_def)
  have w: "\<exists>w. wheelContainerRef (createWheel recipes st) = Some w
              \<and> fill (children w ! index) = COLORS ! (index mod length COLORS)"
    if "appRef st \<and> 2 \<le> length recipes \<and> length recipes \<le> 100"
    using that assms(2) by (simp add: createWheel_drawn drawSlices_angles(4))
  show ?thesis using f r s c l w by blast
qed

theorem slice_color_cycles_witness:
  "[10, 20, 30] \<noteq> ([] :: nat list) \<and> (1::nat) < length initialRecipes
   \<and> fill (drawSlices [10, 20, 30] initialRecipes ! 1) = 20
   \<and> fill (drawSlices [10, 20, 30] initialRecipes ! 4) = 20
   \<and> (\<exists>w. wheelContainerRef (createWheel initialRecipes mounted) = Some w
          \<and> fill (children w ! 1) = 0x4ECDC4)"
proof -
  let ?p = "[10, 20, 30] :: nat list"
  have len: "length initialRecipes = 5" by (simp add: initialRecipes_def)
  have h: "?p \<noteq> []" "(1::nat) < length initialRecipes"
    by (simp_all add: len)
  have m: "appRef mounted \<and> 2 \<le> length initialRecipes \<and> length initialRecipes \<le> 100"
    by (simp add: len mounted_def)
  have c: "COLORS ! (1 mod length COLORS) = 0x4ECDC4" by (simp add: COLORS_def)
  have p: "1 + length ?p < length initialRecipes" by (simp add: len)
  have i: "?p ! (1 mod length ?p) = 20" "1 + length ?p = 4" by simp_all
  note t = slice_color_cycles[OF h, of mounted]
  have t1: "fill (drawSlices ?p initialRecipes ! 1) = ?p ! (1 mod length ?p)"
    using t by blast
  have t4: "fill (drawSlices ?p initialRecipes ! (1 + length ?p))
              = fill (drawSlices ?p initialRecipes ! 1)"
    using t p by blast
  have a: "fill (drawSlices ?p initialRecipes ! 1) = 20" using t1 by (simp only: i)
  have b: "fill (drawSlices ?p initialRecipes ! 4) = 20" using t4 by (simp only: i a)
  have "\<exists>w. wheelContainerRef (createWheel initialRecipes mounted) = Some w
          \<and> fill (children w ! 1) = 0x4ECDC4"
    using t m unfolding c by blast
  then show ?thesis using h a b by blast
qed

text \<open>
  C6 (as amended). Start from a drawn, idle wheel with at least one recipe and let any
  sequence of clicks and animation frames happen. The component always arrives, without
  an error, in a state where at most one animation callback is scheduled, and one is
  scheduled exactly while \<open>isSpinning\<close> holds. In such a state, while \<open>isSpinning\<close> holds
  every further call of \<^verbatim>\<open>spin\<close> returns at once and leaves the component unchanged:
  the call is ignored silently, no error is raised and nothing is queued. A frame that
  comes 10000 ms or more after the start ends the spin and clears \<open>isSpinning\<close>; and when
  \<open>isSpinning\<close> does not hold, a call of \<^verbatim>\<open>spin\<close> starts a new spin.
\<close>

theorem spin_while_spinning_is_ignored:
  assumes "wheelContainerRef st0 \<noteq> None" "tickerRef st0"
      and "\<not> isSpinning st0" "scheduled st0 = []" "recipes \<noteq> []"
  shows "\<exists>st. run recipes evs st0 = Inr st
           \<and> length (scheduled st) \<le> 1 \<and> (isSpinning st \<longleftrightarrow> scheduled st \<noteq> [])
           \<and> (isSpinning st \<longrightarrow> spin recipes random t0 now st = Inr st)
           \<and> (\<forall>an t. scheduled st = [an] \<and> startTime an + 10000 \<le> t \<longrightarrow>
                 (\<exists>st'. frame recipes t st = Inr st' \<and> \<not> isSpinning st' \<and> scheduled st' = []))
           \<and> (\<not> isSpinning st \<and> now < t0 + 10000 \<longrightarrow>
                 (\<exists>st'. spin recipes random t0 now st = Inr st' \<and> isSpinning st'
                    \<and> scheduled st' = [\<lparr>maxRotations = 10 + random, startTime = t0\<rparr>]))"
proof -
  have "ready st0" using assms(1-4) by (simp add: ready_def)
  then obtain st where st: "run recipes evs st0 = Inr st" "ready st"
    using run_ready by blast
  have one: "length (scheduled st) \<le> 1" "isSpinning st \<longleftrightarrow> scheduled st \<noteq> []"
    using st(2) by (simp_all add: ready_def)
  have ign: "spin recipes random t0 now st = Inr st" if "isSpinning st"
    using that by (rule spin_ignored)
  have fin: "\<exists>st'. frame recipes t st = Inr st' \<and> \<not> isSpinning st' \<and> scheduled st' = []"
    if "scheduled st = [an] \<and> startTime an + 10000 \<le> t" for an t
    using frame_ready[OF st(2), of recipes t] that by blast
  have again: "\<exists>st'. spin recipes random t0 now st = Inr st' \<and> isSpinning st'
                    \<and> scheduled st' = [\<lparr>maxRotations = 10 + random, startTime = t0\<rparr>]"
    if "\<not> isSpinning st \<and> now < t0 + 10000"
    using spin_starts[OF st(2) _ assms(5), of random t0 now] that by auto
  show ?thesis using st(1) one ign fin again by blast
qed

theorem spin_while_spinning_is_ignored_witness:
  "wheelContainerRef (createWheel initialRecipes mounted) \<noteq> None
   \<and> tickerRef (createWheel initialRecipes mounted)
   \<and> \<not> isSpinning (createWheel initialRecipes mounted)
   \<and> scheduled (createWheel initialRecipes mounted) = []
   \<and> initialRecipes \<noteq> []
   \<and> (\<exists>st. run initialRecipes [Click (1 / 2) 0 0] (createWheel initialRecipes mounted) = Inr st
          \<and> isSpinning st \<and> length (scheduled st) \<le> 1
          \<and> spin initialRecipes (1 / 4) 5 5 st = Inr st)"
proof -
  let ?idle = "createWheel initialRecipes mounted"
  have h: "wheelContainerRef ?idle \<noteq> None" "tickerRef ?idle" "\<not> isSpinning ?idle"
      "scheduled ?idle = []" "initialRecipes \<noteq> []"
    by (simp_all add: createWheel_def mounted_def initialRecipes_def)
  obtain s1 where s1: "spin initialRecipes (1 / 2) 0 0 ?idle = Inr s1" "isSpinning s1"
    using spin_starts[OF drawn_ready h(3,5), of "1 / 2" 0 0] by auto
  have r: "run initialRecipes [Click (1 / 2) 0 0] ?idle = Inr s1" by (simp add: s1(1))
  obtain st where st: "run initialRecipes [Click (1 / 2) 0 0] ?idle = Inr st"
      "length (scheduled st) \<le> 1" "isSpinning st \<longrightarrow> spin initialRecipes (1 / 4) 5 5 st = Inr st"
    using spin_while_spinning_is_ignored[OF h, of "[Click (1 / 2) 0 0]" "1 / 4" 5 5] by blast
  have "st = s1" using r st(1) by simp
  then show ?thesis using h st s1(2) by blast
qed

text \<open>
  The claim as stated, that a call of \<^verbatim>\<open>spin\<close> during a spin fails with an error,
  fails: the second call returns normally, with the component unchanged.
\<close>

theorem spin_AlreadySpinning_counterexample:
  "\<exists>st. spin initialRecipes (1 / 2) 0 0 (createWheel initialRecipes mounted) = Inr st
      \<and> isSpinning st
      \<and> spin initialRecipes (1 / 4) 5 5 st = Inr st
      \<and> \<not> isl (spin initialRecipes (1 / 4) 5 5 st)"
proof -
  let ?idle = "createWheel initialRecipes mounted"
  have h: "\<not> isSpinning ?idle" "initialRecipes \<noteq> []"
    by (simp_all add: createWheel_def mounted_def initialRecipes_def)
  obtain s1 where s1: "spin initialRecipes (1 / 2) 0 0 ?idle = Inr s1" "isSpinning s1"
    using spin_starts[OF drawn_ready h, of "1 / 2" 0 0] by auto
  have "spin initialRecipes (1 / 4) 5 5 s1 = Inr s1" using s1(2) by (rule spin_ignored)
  then show ?thesis using s1 by auto
qed

text \<open>
  C7 (as amended). \<^verbatim>\<open>spin\<close> draws \<open>maxRotations = 10 + random\<close> and every run of
  \<^verbatim>\<open>animate\<close>, at every clock value \<open>now\<close>, returns without an error and sets the
  rotation of the wheel to \<open>maxRotations * 2\<pi> * easeOut progress\<close> with
  \<open>progress = min ((now - startTime) / 10000) 1\<close> and \<open>easeOut t = 1 - (1 - t)\<^sup>3\<close>. The
  progress is bounded above only: it is the progress clamped to \<open>[0, 1]\<close> whenever
  \<open>startTime \<le> now\<close>. Before 10000 ms have passed the same animation, with the same
  \<open>maxRotations\<close> and \<open>startTime\<close>, is scheduled again.
\<close>

theorem animate_rotation_eased:
  "\<exists>st'. animate recipes an now st = Inr st'
      \<and> map_option rotation (wheelContainerRef st')
          = map_option (\<lambda>_. maxRotations an * pi * 2
                * easeOut (min (real_of_int (now - startTime an) / 10000) 1))
              (wheelContainerRef st)
      \<and> (startTime an \<le> now \<longrightarrow>
            map_option rotation (wheelContainerRef st')
              = map_option (\<lambda>_. maxRotations an * pi * 2
                    * easeOut (max 0 (min (real_of_int (now - startTime an) / 10000) 1)))
                  (wheelContainerRef st))
      \<and> (now < startTime an + 10000 \<longrightarrow> scheduled st' = scheduled st @ [an])
      \<and> (wheelContainerRef st \<noteq> None \<and> tickerRef st \<and> recipes \<noteq> [] \<and> \<not> isSpinning st \<longrightarrow>
            spin recipes random t0 now st
              = animate recipes \<lparr>maxRotations = 10 + random, startTime = t0\<rparr> now
                  (st\<lparr>isSpinning := True, winningItem := None\<rparr>))"
proof -
  obtain st' where st': "animate recipes an now st = Inr st'"
      "map_option rotation (wheelContainerRef st')
          = map_option (\<lambda>_. rotationAt an now) (wheelContainerRef st)"
    using animate_rotation by blast
  have r: "rotationAt an now = maxRotations an * pi * 2
                * easeOut (min (real_of_int (now - startTime an) / 10000) 1)"
    by (simp add: rotationAt_def progressAt_def spinDuration_def)
  have c: "min (real_of_int (now - startTime an) / 10000) 1
             = max 0 (min (real_of_int (now - startTime an) / 10000) 1)"
    if "startTime an \<le> now" using that by simp
  have a: "map_option rotation (wheelContainerRef st')
          = map_option (\<lambda>_. maxRotations an * pi * 2
                * easeOut (min (real_of_int (now - startTime an) / 10000) 1))
              (wheelContainerRef st)"
    using st'(2) by (simp only: r)
  have b: "map_option rotation (wheelContainerRef st')
              = map_option (\<lambda>_. maxRotations an * pi * 2
                    * easeOut (max 0 (min (real_of_int (now - startTime an) / 10000) 1)))
                  (wheelContainerRef st)"
    if "startTime an \<le> now"
    using a by (simp only: c[OF that, symmetric])
  have s: "scheduled st' = scheduled st @ [an]" if "now < startTime an + 10000"
  proof -
    have "progressAt an now < 1" using that progressAt_done_iff[of an now] by auto
    then show ?thesis using st'(1) by (auto simp: animate_running)
  qed
  have d: "spin recipes random t0 now st
              = animate recipes \<lparr>maxRotations = 10 + random, startTime = t0\<rparr> now
                  (st\<lparr>isSpinning := True, winningItem := None\<rparr>)"
    if "wheelContainerRef st \<noteq> None \<and> tickerRef st \<and> recipes \<noteq> [] \<and> \<not> isSpinning st"
    using that by (auto simp: spin_def)
  show ?thesis using st'(1) a b s d by blast
qed

theorem animate_rotation_eased_witness:
  "(0::int) \<le> 5000 \<and> (5000::int) < 0 + 10000
   \<and> (\<exists>st'. spin initialRecipes (1 / 2) 0 5000 (createWheel initialRecipes mounted) = Inr st'
          \<and> map_option rotation (wheelContainerRef st') = Some (147 * pi / 8)
          \<and> scheduled st' = [\<lparr>maxRotations = 10 + 1 / 2, startTime = 0\<rparr>])"
proof -
  let ?idle = "createWheel initialRecipes mounted"
  let ?an = "\<lparr>maxRotations = 10 + 1 / 2, startTime = 0\<rparr>"
  let ?st = "(?idle)\<lparr>isSpinning := True, winningItem := None\<rparr>"
  have h: "wheelContainerRef ?idle \<noteq> None \<and> tickerRef ?idle \<and> initialRecipes \<noteq> []
             \<and> \<not> isSpinning ?idle"
    by (simp add: createWheel_def mounted_def initialRecipes_def)
  have t: "startTime ?an \<le> 5000" "5000 < startTime ?an + 10000" by simp_all
  have w: "wheelContainerRef ?st = Some \<lparr>children = drawSlices COLORS initialRecipes, rotation = 0\<rparr>"
      "scheduled ?st = []"
    by (simp_all add: createWheel_def mounted_def initialRecipes_def)
  have e: "maxRotations ?an * pi * 2
             * easeOut (max 0 (min (real_of_int (5000 - startTime ?an) / 10000) 1)) = 147 * pi / 8"
    by (simp add: easeOut_def power3_eq_cube)
  have s: "spin initialRecipes (1 / 2) 0 5000 ?idle = animate initialRecipes ?an 5000 ?st"
    using animate_rotation_eased[of initialRecipes ?an 5000 ?idle "1 / 2" 0] h by blast
  obtain st' where st': "animate initialRecipes ?an 5000 ?st = Inr st'"
      "startTime ?an \<le> 5000 \<longrightarrow> map_option rotation (wheelContainerRef st')
         = map_option (\<lambda>_. maxRotations ?an * pi * 2
               * easeOut (max 0 (min (real_of_int (5000 - startTime ?an) / 10000) 1)))
             (wheelContainerRef ?st)"
      "5000 < startTime ?an + 10000 \<longrightarrow> scheduled st' = scheduled ?st @ [?an]"
    using animate_rotation_eased[of initialRecipes ?an 5000 ?st] by blast
  have "map_option rotation (wheelContainerRef st') = Some (147 * pi / 8)"
    using st'(2) t(1) unfolding e w by simp
  moreover have "scheduled st' = [?an]" using st'(3) t(2) unfolding w by simp
  ultimately show ?thesis using s st'(1) by simp
qed

text \<open>
  The claim as stated, with the progress clamped below at 0, fails when the clock read by
  \<^verbatim>\<open>animate\<close> is behind the start time: with \<open>random = 0\<close>, \<open>startTime = 10000\<close> and
  \<open>now = 0\<close> the progress is \<open>-1\<close> and the rotation is \<open>-140\<pi>\<close>, where the clamped
  progress would give 0.
\<close>

theorem progress_not_clamped_below_counterexample:
  "\<exists>st'. spin initialRecipes 0 10000 0 (createWheel initialRecipes mounted) = Inr st'
      \<and> map_option rotation (wheelContainerRef st') = Some (- (140 * pi))
      \<and> map_option rotation (wheelContainerRef st')
          \<noteq> Some ((10 + 0) * pi * 2
                * easeOut (max 0 (min (real_of_int (0 - 10000) / 10000) 1)))"
proof -
  let ?idle = "createWheel initialRecipes mounted"
  let ?an = "\<lparr>maxRotations = 10 + 0, startTime = 10000\<rparr>"
  let ?st = "(?idle)\<lparr>isSpinning := True, winningItem := None\<rparr>"
  have s: "spin initialRecipes 0 10000 0 ?idle = animate initialRecipes ?an 0 ?st"
    by (simp add: spin_def createWheel_def mounted_def initialRecipes_def)
  have w: "wheelContainerRef ?st = Some \<lparr>children = drawSlices COLORS initialRecipes, rotation = 0\<rparr>"
    by (simp add: createWheel_def mounted_def initialRecipes_def)
  have r: "rotationAt ?an 0 = - (140 * pi)"
    by (simp add: rotationAt_def progressAt_def spinDuration_def easeOut_def power3_eq_cube)
  obtain st' where st': "animate initialRecipes ?an 0 ?st = Inr st'"
      "map_option rotation (wheelContainerRef st')
         = map_option (\<lambda>_. rotationAt ?an 0) (wheelContainerRef ?st)"
    using animate_rotation by blast
  have a: "map_option rotation (wheelContainerRef st') = Some (- (140 * pi))"
    using st'(2) unfolding w r by simp
  have "(10 + 0) * pi * 2 * easeOut (max 0 (min (real_of_int (0 - 10000) / 10000) 1)) = 0"
    by (simp add: easeOut_def)
  then have n: "map_option rotation (wheelContainerRef st')
          \<noteq> Some ((10 + 0) * pi * 2
                * easeOut (max 0 (min (real_of_int (0 - 10000) / 10000) 1)))"
    unfolding a by simp
  have "spin initialRecipes 0 10000 0 ?idle = Inr st'" using s st'(1) by simp
  then show ?thesis using a n by blast
qed

text \<open>
  C1 (as amended). Drawing and resolving agree on doubles away from the slice boundaries.
  Take between 2 and 100 recipes and the slices \<^verbatim>\<open>createWheel\<close> draws for them, with the
  angles it computes on doubles. For every angle \<open>a\<close> that lies in slice \<open>i\<close> at least
  \<open>10\<^sup>-\<^sup>1\<^sup>1\<close> away from its start and from its end, \<^verbatim>\<open>getWinningItem\<close> at the rotation
  \<^verbatim>\<open>3 * Math.PI / 2 - a\<close>, computed on doubles, returns the name of recipe \<open>i\<close>, which is
  the caption of that slice.
\<close>

theorem fl_drawn_slice_is_resolved:
  assumes "2 \<le> length recipes" "length recipes \<le> 100" "i < length recipes"
      and "fl_startAngle (fl_drawSlices recipes ! i) + 1 / 10 ^ 11 \<le> a"
      and "a \<le> fl_endAngle (fl_drawSlices recipes ! i) - 1 / 10 ^ 11"
  shows "fl_getWinningItem (rnd (fl_topPosition - a)) recipes = Inr (Some (name (recipes ! i)))
         \<and> fl_label (fl_drawSlices recipes ! i) = name (recipes ! i)"
proof -
  have n: "0 < length recipes" using assms(1) by linarith
  have "fl_winningIndex (rnd (fl_topPosition - a)) (length recipes) = real i"
    using n assms(2,3) assms(4,5)[unfolded nth_fl_drawSlices[OF assms(3)]]
    by (rule fl_resolve_inside)
  then have "fl_getWinningItem (rnd (fl_topPosition - a)) recipes
               = Inr (Some (name (recipes ! i)))"
    using assms(3) by (intro fl_getWinningItem_at)
  then show ?thesis using assms(3) by (simp add: nth_fl_drawSlices)
qed

theorem fl_drawn_slice_is_resolved_witness:
  "2 \<le> length initialRecipes \<and> length initialRecipes \<le> 100 \<and> 1 < length initialRecipes
   \<and> fl_startAngle (fl_drawSlices initialRecipes ! 1) + 1 / 10 ^ 11 \<le> 3 / 2
   \<and> 3 / 2 \<le> fl_endAngle (fl_drawSlices initialRecipes ! 1) - 1 / 10 ^ 11
   \<and> fl_getWinningItem (rnd (fl_topPosition - 3 / 2)) initialRecipes = Inr (Some ''Pasta'')
   \<and> fl_label (fl_drawSlices initialRecipes ! 1) = ''Pasta''"
proof -
  have len: "length initialRecipes = 5" by (simp add: initialRecipes_def)
  have h: "2 \<le> length initialRecipes" "length initialRecipes \<le> 100" "1 < length initialRecipes"
    by (simp_all add: len)
  have e: "name (initialRecipes ! 1) = ''Pasta''" by (simp add: initialRecipes_def)
  have c: "6 < fl_twoPi" "fl_twoPi < 7" by (rule fl_twoPi_bounds)+
  have two: "(1::nat) + 1 = 2" by simp
  define t :: real where "t = 1 / 2 ^ 47"
  define d :: real where "d = 1 / 10 ^ 11"
  have td: "t \<le> 1 / 100" "d \<le> 1 / 100" unfolding t_def d_def by simp_all
  have "\<bar>fl_angle 5 1 - fl_twoPi / 5\<bar> \<le> t"
    using fl_angle_error[of 5 1] unfolding t_def by simp
  then have "fl_angle 5 1 + d \<le> 3 / 2" using c td by linarith
  then have lo: "fl_startAngle (fl_drawSlices initialRecipes ! 1) + 1 / 10 ^ 11 \<le> 3 / 2"
    unfolding d_def by (simp only: nth_fl_drawSlices(1)[OF h(3)] len)
  have "\<bar>fl_angle 5 2 - 2 * fl_twoPi / 5\<bar> \<le> t"
    using fl_angle_error[of 5 2] unfolding t_def by simp
  then have "3 / 2 \<le> fl_angle 5 2 - d" using c td by linarith
  then have hi: "3 / 2 \<le> fl_endAngle (fl_drawSlices initialRecipes ! 1) - 1 / 10 ^ 11"
    unfolding d_def by (simp only: nth_fl_drawSlices(2)[OF h(3)] len two)
  show ?thesis
    using fl_drawn_slice_is_resolved[OF h lo hi] h lo hi by (simp only: e simp_thms)
qed

text \<open>
  The claim as stated, for every angle strictly inside the slice, fails on doubles within
  rounding distance of a boundary: with the five initial recipes the double
  1.256637061435917 lies strictly inside slice 0, which ends at 1.2566370614359172, and
  the rotation \<^verbatim>\<open>3 * Math.PI / 2 - a\<close> resolves to Pasta, the recipe of slice 1.
\<close>

theorem fl_near_boundary_counterexample:
  "fl_startAngle (fl_drawSlices initialRecipes ! 0) < 5659390201622751 / 2 ^ 52
   \<and> 5659390201622751 / 2 ^ 52 < fl_endAngle (fl_drawSlices initialRecipes ! 0)
   \<and> name (initialRecipes ! 0) = ''Pizza''
   \<and> fl_getWinningItem (rnd (fl_topPosition - 5659390201622751 / 2 ^ 52)) initialRecipes
         = Inr (Some ''Pasta'')"
proof -
  have e1: "rnd (real (0::nat) / real (5::nat)) = 0"
    by (simp add: rnd_def fl_twoPi_eq fl_topPosition_eq Math_PI_def)
  have e2: "rnd (0 * Math_PI) = 0"
    by (simp add: rnd_def fl_twoPi_eq fl_topPosition_eq Math_PI_def)
  have e3: "rnd (0 * 2) = 0"
    by (simp add: rnd_def fl_twoPi_eq fl_topPosition_eq Math_PI_def)
  have a4: "fl_angle (5::nat) (0::nat) = 0"
    by (simp only: fl_angle_def e1 e2 e3)
  have e5: "rnd (real (1::nat) / real (5::nat)) = (3602879701896397 / 2 ^ 54)"
    using rnd_eval[where x = "real (1::nat) / real (5::nat)" and k = "-3" and n = "7205759403792794"]
    by (simp add: fl_twoPi_eq fl_topPosition_eq Math_PI_def)
  have e6: "rnd ((3602879701896397 / 2 ^ 54) * Math_PI) = (176855943800711 / 2 ^ 48)"
    using rnd_eval[where x = "(3602879701896397 / 2 ^ 54) * Math_PI" and k = "-1" and n = "5659390201622752"]
    by (simp add: fl_twoPi_eq fl_topPosition_eq Math_PI_def)
  have e7: "rnd ((176855943800711 / 2 ^ 48) * 2) = (176855943800711 / 2 ^ 47)"
    using rnd_eval[where x = "(176855943800711 / 2 ^ 48) * 2" and k = "0" and n = "5659390201622752"]
    by (simp add: fl_twoPi_eq fl_topPosition_eq Math_PI_def)
  have a8: "fl_angle (5::nat) (1::nat) = (176855943800711 / 2 ^ 47)"
    by (simp only: fl_angle_def e5 e6 e7)
  have r9: "rnd (fl_topPosition - (5659390201622751 / 2 ^ 52)) = (1945415381807821 / 2 ^ 49)"
    using rnd_eval_tie[where x = "fl_topPosition - (5659390201622751 / 2 ^ 52)" and k = "1" and f = "7781661527231284"]
    by (simp add: fl_twoPi_eq fl_topPosition_eq Math_PI_def)
  have e10: "js_rem (1945415381807821 / 2 ^ 49) fl_twoPi = (1945415381807821 / 2 ^ 49)"
    by (simp add: js_rem_def js_trunc_def fl_twoPi_eq Math_PI_def)
  have e11: "rnd ((1945415381807821 / 2 ^ 49) + fl_twoPi) = (5482534257822041 / 2 ^ 49)"
    using rnd_eval[where x = "(1945415381807821 / 2 ^ 49) + fl_twoPi" and k = "3" and n = "5482534257822041"]
    by (simp add: fl_twoPi_eq fl_topPosition_eq Math_PI_def)
  have e12: "js_rem (5482534257822041 / 2 ^ 49) fl_twoPi = (1945415381807821 / 2 ^ 49)"
    by (simp add: js_rem_def js_trunc_def fl_twoPi_eq Math_PI_def)
  have e13: "rnd (fl_topPosition - (1945415381807821 / 2 ^ 49)) = (176855943800711 / 2 ^ 47)"
    using rnd_eval[where x = "fl_topPosition - (1945415381807821 / 2 ^ 49)" and k = "0" and n = "5659390201622752"]
    by (simp add: fl_twoPi_eq fl_topPosition_eq Math_PI_def)
  have e14: "rnd ((176855943800711 / 2 ^ 47) + fl_twoPi) = (530567831402133 / 2 ^ 46)"
    using rnd_eval[where x = "(176855943800711 / 2 ^ 47) + fl_twoPi" and k = "2" and n = "8489085302434128"]
    by (simp add: fl_twoPi_eq fl_topPosition_eq Math_PI_def)
  have e15: "js_rem (530567831402133 / 2 ^ 46) fl_twoPi = (176855943800711 / 2 ^ 47)"
    by (simp add: js_rem_def js_trunc_def fl_twoPi_eq Math_PI_def)
  have e16: "rnd (fl_twoPi / real (5::nat)) = (176855943800711 / 2 ^ 47)"
    using rnd_eval[where x = "fl_twoPi / real (5::nat)" and k = "0" and n = "5659390201622752"]
    by (simp add: fl_twoPi_eq fl_topPosition_eq Math_PI_def)
  have e17: "rnd ((176855943800711 / 2 ^ 47) / (176855943800711 / 2 ^ 47)) = 1"
    using rnd_eval[where x = "(176855943800711 / 2 ^ 47) / (176855943800711 / 2 ^ 47)" and k = "0" and n = "4503599627370496"]
    by (simp add: fl_twoPi_eq fl_topPosition_eq Math_PI_def)
  have e18: "\<lfloor>1 :: real\<rfloor> = 1"
    by simp
  have e19: "js_rem (of_int 1) (real (5::nat)) = 1"
    by (simp add: js_rem_def js_trunc_def)
  have w20: "fl_winningIndex (1945415381807821 / 2 ^ 49) (5::nat) = 1"
    by (simp only: fl_winningIndex_def fl_slicesFromTop_def fl_normalizedRotation_def fl_sliceAngle_def
        e10 e11 e12 e13 e14 e15 e16 e17 e18 e19)
  have len: "length initialRecipes = 5" by (simp add: initialRecipes_def)
  have z: "(0::nat) < length initialRecipes" "(1::nat) < length initialRecipes"
    by (simp_all add: len)
  have S: "fl_startAngle (fl_drawSlices initialRecipes ! 0) = 0"
    using nth_fl_drawSlices(1)[OF z(1)] a4 by (simp only: len)
  have one: "(0::nat) + 1 = 1" by simp
  have E: "fl_endAngle (fl_drawSlices initialRecipes ! 0) = 176855943800711 / 2 ^ 47"
    using nth_fl_drawSlices(2)[OF z(1)] a8 by (simp only: len one)
  have w: "fl_winningIndex (rnd (fl_topPosition - 5659390201622751 / 2 ^ 52)) (length initialRecipes)
             = real 1"
    unfolding len using w20 by (simp only: r9)
  have "fl_getWinningItem (rnd (fl_topPosition - 5659390201622751 / 2 ^ 52)) initialRecipes
          = Inr (Some (name (initialRecipes ! 1)))"
    using z(2) w by (rule fl_getWinningItem_at)
  moreover have "name (initialRecipes ! 0) = ''Pizza''" "name (initialRecipes ! 1) = ''Pasta''"
    by (simp_all add: initialRecipes_def)
  ultimately show ?thesis unfolding S E by simp
qed

text \<open>
  C2 (as amended). For between 2 and 100 recipes and every rotation \<open>r\<close>, the winning index
  computed on doubles is a whole number \<open>k\<close> with \<open>0 \<le> k < N\<close> and the result is the name
  of recipe \<open>k\<close>. The result at \<^verbatim>\<open>r + Math.PI * 2\<close> is the result at \<open>r\<close> whenever
  \<open>|r| \<le> 1000\<close> and the exact angle under the marker, \<open>3 * Math.PI / 2 - r\<close> reduced to
  \<open>[0, 2 * Math.PI)\<close>, is at least \<open>10\<^sup>-\<^sup>1\<^sup>1\<close> away from both ends \<open>i * 2 * Math.PI / N\<close>
  and \<open>(i + 1) * 2 * Math.PI / N\<close> of the sector \<open>i\<close> it lies in; both results are then the
  name of recipe \<open>i\<close>.
\<close>

theorem fl_getWinningItem_index_range:
  assumes "2 \<le> length recipes" "length recipes \<le> 100"
  shows "(\<exists>k::nat. k < length recipes \<and> fl_winningIndex r (length recipes) = real k
            \<and> fl_getWinningItem r recipes = Inr (Some (name (recipes ! k))))
         \<and> (\<forall>i. i < length recipes \<and> \<bar>r\<bar> \<le> 1000
               \<and> real i * fl_twoPi / real (length recipes) + 1 / 10 ^ 11
                    \<le> fl_wrap (fl_topPosition - r)
               \<and> fl_wrap (fl_topPosition - r)
                    \<le> real (i + 1) * fl_twoPi / real (length recipes) - 1 / 10 ^ 11
               \<longrightarrow> fl_getWinningItem r recipes = Inr (Some (name (recipes ! i)))
                   \<and> fl_getWinningItem (rnd (r + fl_twoPi)) recipes = fl_getWinningItem r recipes)"
proof -
  have n: "0 < length recipes" using assms(1) by linarith
  obtain k :: nat where k: "k < length recipes" "fl_winningIndex r (length recipes) = real k"
    using fl_resolved_index[OF n] by blast
  have g: "fl_getWinningItem r recipes = Inr (Some (name (recipes ! k)))"
    using k by (rule fl_getWinningItem_at)
  have p: "fl_getWinningItem r recipes = Inr (Some (name (recipes ! i)))
             \<and> fl_getWinningItem (rnd (r + fl_twoPi)) recipes = fl_getWinningItem r recipes"
    if h: "i < length recipes \<and> \<bar>r\<bar> \<le> 1000
               \<and> real i * fl_twoPi / real (length recipes) + 1 / 10 ^ 11
                    \<le> fl_wrap (fl_topPosition - r)
               \<and> fl_wrap (fl_topPosition - r)
                    \<le> real (i + 1) * fl_twoPi / real (length recipes) - 1 / 10 ^ 11" for i
  proof -
    have i: "i < length recipes" using h by blast
    have w: "fl_winningIndex r (length recipes) = real i"
        "fl_winningIndex (rnd (r + fl_twoPi)) (length recipes) = real i"
      using fl_periodic_inside[OF n assms(2) i, of r] h by blast+
    have "fl_getWinningItem r recipes = Inr (Some (name (recipes ! i)))"
      using i w(1) by (rule fl_getWinningItem_at)
    moreover have "fl_getWinningItem (rnd (r + fl_twoPi)) recipes
                     = Inr (Some (name (recipes ! i)))"
      using i w(2) by (rule fl_getWinningItem_at)
    ultimately show ?thesis by simp
  qed
  show ?thesis using k g p by blast
qed

theorem fl_getWinningItem_index_range_witness:
  "2 \<le> length initialRecipes \<and> length initialRecipes \<le> 100
   \<and> \<bar>1 :: real\<bar> \<le> 1000
   \<and> real 2 * fl_twoPi / real (length initialRecipes) + 1 / 10 ^ 11 \<le> fl_wrap (fl_topPosition - 1)
   \<and> fl_wrap (fl_topPosition - 1) \<le> real (2 + 1) * fl_twoPi / real (length initialRecipes) - 1 / 10 ^ 11
   \<and> fl_getWinningItem 1 initialRecipes = Inr (Some ''Salad'')
   \<and> fl_getWinningItem (rnd (1 + fl_twoPi)) initialRecipes = Inr (Some ''Salad'')"
proof -
  have len: "length initialRecipes = 5" by (simp add: initialRecipes_def)
  have h: "2 \<le> length initialRecipes" "length initialRecipes \<le> 100"
    by (simp_all add: len)
  have i: "2 < length initialRecipes" by (simp add: len)
  have e: "name (initialRecipes ! 2) = ''Salad''" by (simp add: initialRecipes_def)
  have r: "\<bar>1 :: real\<bar> \<le> 1000" by simp
  have "fl_wrap (fl_topPosition - 1) = fl_topPosition - 1"
    by (rule fl_wrap_id) (simp_all add: fl_topPosition_eq fl_twoPi_eq Math_PI_def)
  then have w: "fl_wrap (fl_topPosition - 1) = 3 * Math_PI / 2 - 1"
    by (simp add: fl_topPosition_eq)
  have lo: "real 2 * fl_twoPi / real (length initialRecipes) + 1 / 10 ^ 11
              \<le> fl_wrap (fl_topPosition - 1)"
    unfolding w len by (simp add: fl_twoPi_eq Math_PI_def)
  have hi: "fl_wrap (fl_topPosition - 1)
              \<le> real (2 + 1) * fl_twoPi / real (length initialRecipes) - 1 / 10 ^ 11"
    unfolding w len by (simp add: fl_twoPi_eq Math_PI_def)
  have "fl_getWinningItem 1 initialRecipes = Inr (Some (name (initialRecipes ! 2)))
      \<and> fl_getWinningItem (rnd (1 + fl_twoPi)) initialRecipes = fl_getWinningItem 1 initialRecipes"
    using fl_getWinningItem_index_range[OF h, of 1] i r lo hi by blast
  then show ?thesis using h r lo hi by (simp only: e simp_thms)
qed

text \<open>
  The claim as stated, periodicity at every rotation, fails on doubles: with three
  recipes the rotation \<open>r = -1.5707963267948957\<close> resolves to index 0, and
  \<^verbatim>\<open>r + Math.PI * 2\<close>, which is the double 4.712388980384691, resolves to index 2.
\<close>

theorem fl_getWinningItem_not_periodic_counterexample:
  "rnd (- (1768559438007109 / 2 ^ 50) + fl_twoPi) = 5305678314021331 / 2 ^ 50
   \<and> fl_winningIndex (- (1768559438007109 / 2 ^ 50)) 3 = 0
   \<and> fl_winningIndex (rnd (- (1768559438007109 / 2 ^ 50) + fl_twoPi)) 3 = 2
   \<and> fl_getWinningItem (- (1768559438007109 / 2 ^ 50))
         [\<lparr>name = ''A''\<rparr>, \<lparr>name = ''B''\<rparr>, \<lparr>name = ''C''\<rparr>] = Inr (Some ''A'')
   \<and> fl_getWinningItem (rnd (- (1768559438007109 / 2 ^ 50) + fl_twoPi))
         [\<lparr>name = ''A''\<rparr>, \<lparr>name = ''B''\<rparr>, \<lparr>name = ''C''\<rparr>] = Inr (Some ''C'')"
proof -
  let ?labels = "[\<lparr>name = ''A''\<rparr>, \<lparr>name = ''B''\<rparr>, \<lparr>name = ''C''\<rparr>]"
  have p1: "rnd ((- (1768559438007109 / 2 ^ 50)) + fl_twoPi) = (5305678314021331 / 2 ^ 50)"
    using rnd_eval[where x = "(- (1768559438007109 / 2 ^ 50)) + fl_twoPi" and k = "2" and n = "5305678314021331"]
    by (simp add: fl_twoPi_eq fl_topPosition_eq Math_PI_def)
  have e2: "js_rem (- (1768559438007109 / 2 ^ 50)) fl_twoPi = (- (1768559438007109 / 2 ^ 50))"
    by (simp add: js_rem_def js_trunc_def fl_twoPi_eq Math_PI_def)
  have e3: "rnd ((- (1768559438007109 / 2 ^ 50)) + fl_twoPi) = (5305678314021331 / 2 ^ 50)"
    using rnd_eval[where x = "(- (1768559438007109 / 2 ^ 50)) + fl_twoPi" and k = "2" and n = "5305678314021331"]
    by (simp add: fl_twoPi_eq fl_topPosition_eq Math_PI_def)
  have e4: "js_rem (5305678314021331 / 2 ^ 50) fl_twoPi = (5305678314021331 / 2 ^ 50)"
    by (simp add: js_rem_def js_trunc_def fl_twoPi_eq Math_PI_def)
  have e5: "rnd (fl_topPosition - (5305678314021331 / 2 ^ 50)) = (- (1 / 2 ^ 50))"
    using rnd_eval[where x = "fl_topPosition - (5305678314021331 / 2 ^ 50)" and k = "-50" and n = "-4503599627370496"]
    by (simp add: fl_twoPi_eq fl_topPosition_eq Math_PI_def)
  have e6: "rnd ((- (1 / 2 ^ 50)) + fl_twoPi) = (7074237752028439 / 2 ^ 50)"
    using rnd_eval[where x = "(- (1 / 2 ^ 50)) + fl_twoPi" and k = "2" and n = "7074237752028439"]
    by (simp add: fl_twoPi_eq fl_topPosition_eq Math_PI_def)
  have e7: "js_rem (7074237752028439 / 2 ^ 50) fl_twoPi = (7074237752028439 / 2 ^ 50)"
    by (simp add: js_rem_def js_trunc_def fl_twoPi_eq Math_PI_def)
  have e8: "rnd (fl_twoPi / real (3::nat)) = (4716158501352293 / 2 ^ 51)"
    using rnd_eval[where x = "fl_twoPi / real (3::nat)" and k = "1" and n = "4716158501352293"]
    by (simp add: fl_twoPi_eq fl_topPosition_eq Math_PI_def)
  have e9: "rnd ((7074237752028439 / 2 ^ 50) / (4716158501352293 / 2 ^ 51)) = 3"
    using rnd_eval[where x = "(7074237752028439 / 2 ^ 50) / (4716158501352293 / 2 ^ 51)" and k = "1" and n = "6755399441055744"]
    by (simp add: fl_twoPi_eq fl_topPosition_eq Math_PI_def)
  have e10: "\<lfloor>3 :: real\<rfloor> = 3"
    by simp
  have e11: "js_rem (of_int 3) (real (3::nat)) = 0"
    by (simp add: js_rem_def js_trunc_def)
  have w12: "fl_winningIndex (- (1768559438007109 / 2 ^ 50)) (3::nat) = 0"
    by (simp only: fl_winningIndex_def fl_slicesFromTop_def fl_normalizedRotation_def fl_sliceAngle_def
        e2 e3 e4 e5 e6 e7 e8 e9 e10 e11)
  have e13: "js_rem (5305678314021331 / 2 ^ 50) fl_twoPi = (5305678314021331 / 2 ^ 50)"
    by (simp add: js_rem_def js_trunc_def fl_twoPi_eq Math_PI_def)
  have e14: "rnd ((5305678314021331 / 2 ^ 50) + fl_twoPi) = (3094979016512443 / 2 ^ 48)"
    using rnd_eval_tie[where x = "(5305678314021331 / 2 ^ 50) + fl_twoPi" and k = "3" and f = "6189958033024885"]
    by (simp add: fl_twoPi_eq fl_topPosition_eq Math_PI_def)
  have e15: "js_rem (3094979016512443 / 2 ^ 48) fl_twoPi = (1326419578505333 / 2 ^ 48)"
    by (simp add: js_rem_def js_trunc_def fl_twoPi_eq Math_PI_def)
  have e16: "rnd (fl_topPosition - (1326419578505333 / 2 ^ 48)) = (- (1 / 2 ^ 49))"
    using rnd_eval[where x = "fl_topPosition - (1326419578505333 / 2 ^ 48)" and k = "-49" and n = "-4503599627370496"]
    by (simp add: fl_twoPi_eq fl_topPosition_eq Math_PI_def)
  have e17: "rnd ((- (1 / 2 ^ 49)) + fl_twoPi) = (3537118876014219 / 2 ^ 49)"
    using rnd_eval[where x = "(- (1 / 2 ^ 49)) + fl_twoPi" and k = "2" and n = "7074237752028438"]
    by (simp add: fl_twoPi_eq fl_topPosition_eq Math_PI_def)
  have e18: "js_rem (3537118876014219 / 2 ^ 49) fl_twoPi = (3537118876014219 / 2 ^ 49)"
    by (simp add: js_rem_def js_trunc_def fl_twoPi_eq Math_PI_def)
  have e19: "rnd (fl_twoPi / real (3::nat)) = (4716158501352293 / 2 ^ 51)"
    using rnd_eval[where x = "fl_twoPi / real (3::nat)" and k = "1" and n = "4716158501352293"]
    by (simp add: fl_twoPi_eq fl_topPosition_eq Math_PI_def)
  have e20: "rnd ((3537118876014219 / 2 ^ 49) / (4716158501352293 / 2 ^ 51)) = (6755399441055743 / 2 ^ 51)"
    using rnd_eval[where x = "(3537118876014219 / 2 ^ 49) / (4716158501352293 / 2 ^ 51)" and k = "1" and n = "6755399441055743"]
    by (simp add: fl_twoPi_eq fl_topPosition_eq Math_PI_def)
  have e21: "\<lfloor>(6755399441055743 / 2 ^ 51) :: real\<rfloor> = 2"
    by simp
  have e22: "js_rem (of_int 2) (real (3::nat)) = 2"
    by (simp add: js_rem_def js_trunc_def)
  have w23: "fl_winningIndex (5305678314021331 / 2 ^ 50) (3::nat) = 2"
    by (simp only: fl_winningIndex_def fl_slicesFromTop_def fl_normalizedRotation_def fl_sliceAngle_def
        e13 e14 e15 e16 e17 e18 e19 e20 e21 e22)

  have c: "fl_winningIndex (rnd (- (1768559438007109 / 2 ^ 50) + fl_twoPi)) 3 = 2"
    using w23 by (simp only: p1)
  have len: "length ?labels = 3" by simp
  have a: "fl_winningIndex (- (1768559438007109 / 2 ^ 50)) (length ?labels) = real 0"
    unfolding len using w12 by simp
  have b: "fl_winningIndex (rnd (- (1768559438007109 / 2 ^ 50) + fl_twoPi)) (length ?labels) = real 2"
    unfolding len using c by simp
  have "fl_getWinningItem (- (1768559438007109 / 2 ^ 50)) ?labels = Inr (Some (name (?labels ! 0)))"
    by (rule fl_getWinningItem_at[OF _ a]) simp
  then have g1: "fl_getWinningItem (- (1768559438007109 / 2 ^ 50)) ?labels = Inr (Some ''A'')"
    by simp
  have "fl_getWinningItem (rnd (- (1768559438007109 / 2 ^ 50) + fl_twoPi)) ?labels
      = Inr (Some (name (?labels ! 2)))"
    by (rule fl_getWinningItem_at[OF _ b]) simp
  then have g2: "fl_getWinningItem (rnd (- (1768559438007109 / 2 ^ 50) + fl_twoPi)) ?labels
      = Inr (Some ''C'')"
    by simp
  show ?thesis using p1 w12 c g1 g2 by blast
qed

text \<open>
  C3 (as amended). For between 2 and 100 recipes, \<^verbatim>\<open>createWheel\<close> draws one slice per
  recipe, in the order of the recipes. On doubles each slice is non-empty and its span is
  \<open>2 * Math.PI / N\<close> up to rounding, within \<open>2\<^sup>-\<^sup>4\<^sup>6\<close>. The slices tile \<open>[0, 2 * Math.PI)\<close>
  exactly: the first starts at 0, each ends where the next one starts, the last ends at
  \<^verbatim>\<open>Math.PI * 2\<close>, and every angle of \<open>[0, 2 * Math.PI)\<close> lies in exactly one slice.
\<close>

theorem fl_drawSlices_tile_circle:
  assumes "2 \<le> length recipes" "length recipes \<le> 100"
  shows "length (fl_drawSlices recipes) = length recipes
         \<and> (\<forall>i < length recipes.
               fl_label (fl_drawSlices recipes ! i) = name (recipes ! i)
               \<and> fl_startAngle (fl_drawSlices recipes ! i) < fl_endAngle (fl_drawSlices recipes ! i)
               \<and> \<bar>fl_endAngle (fl_drawSlices recipes ! i) - fl_startAngle (fl_drawSlices recipes ! i)
                    - fl_twoPi / real (length recipes)\<bar> \<le> 1 / 2 ^ 46)
         \<and> fl_startAngle (fl_drawSlices recipes ! 0) = 0
         \<and> (\<forall>i. i + 1 < length recipes \<longrightarrow>
               fl_endAngle (fl_drawSlices recipes ! i) = fl_startAngle (fl_drawSlices recipes ! (i + 1)))
         \<and> fl_endAngle (fl_drawSlices recipes ! (length recipes - 1)) = fl_twoPi
         \<and> (\<forall>x. 0 \<le> x \<and> x < fl_twoPi \<longrightarrow>
               (\<exists>!i. i < length recipes
                  \<and> fl_startAngle (fl_drawSlices recipes ! i) \<le> x
                  \<and> x < fl_endAngle (fl_drawSlices recipes ! i)))"
proof -
  let ?n = "length recipes"
  let ?ss = "fl_drawSlices recipes"
  have n: "0 < ?n" using assms(1) by linarith
  have step: "fl_angle ?n j < fl_angle ?n (j + 1)" if "j < ?n" for j
    using n assms(2) that by (rule fl_angle_step)
  have each: "fl_label (?ss ! i) = name (recipes ! i)
               \<and> fl_startAngle (?ss ! i) < fl_endAngle (?ss ! i)
               \<and> \<bar>fl_endAngle (?ss ! i) - fl_startAngle (?ss ! i) - fl_twoPi / real ?n\<bar> \<le> 1 / 2 ^ 46"
    if "i < ?n" for i
    using fl_angle_step[OF n assms(2) that] by (simp add: nth_fl_drawSlices[OF that])
  have first: "fl_startAngle (?ss ! 0) = 0"
    by (simp add: nth_fl_drawSlices[OF n] fl_angle_zero)
  have joint: "fl_endAngle (?ss ! i) = fl_startAngle (?ss ! (i + 1))" if "i + 1 < ?n" for i
  proof -
    have "i < ?n" using that by simp
    then have "fl_endAngle (?ss ! i) = fl_angle ?n (i + 1)" by (rule nth_fl_drawSlices(2))
    also have "\<dots> = fl_startAngle (?ss ! (i + 1))"
      using that by (rule nth_fl_drawSlices(1)[symmetric])
    finally show ?thesis .
  qed
  have "?n - 1 < ?n" "?n - 1 + 1 = ?n" using n by simp_all
  then have last: "fl_endAngle (?ss ! (?n - 1)) = fl_twoPi"
    using fl_angle_full[OF n] by (simp add: nth_fl_drawSlices(2))
  have cover: "\<exists>!i. i < ?n \<and> fl_startAngle (?ss ! i) \<le> x \<and> x < fl_endAngle (?ss ! i)"
    if "0 \<le> x \<and> x < fl_twoPi" for x
  proof -
    have "\<exists>!i. i < ?n \<and> fl_angle ?n i \<le> x \<and> x < fl_angle ?n (i + 1)"
      using step that by (intro cover_once) (simp_all add: fl_angle_zero fl_angle_full[OF n])
    moreover have "(i < ?n \<and> fl_startAngle (?ss ! i) \<le> x \<and> x < fl_endAngle (?ss ! i))
        = (i < ?n \<and> fl_angle ?n i \<le> x \<and> x < fl_angle ?n (i + 1))" for i
      using nth_fl_drawSlices(1,2)[of i recipes] by auto
    ultimately show ?thesis by simp
  qed
  show ?thesis using length_fl_drawSlices each first joint last cover by blast
qed

theorem fl_drawSlices_tile_circle_witness:
  "2 \<le> length initialRecipes \<and> length initialRecipes \<le> 100
   \<and> length (fl_drawSlices initialRecipes) = 5
   \<and> fl_label (fl_drawSlices initialRecipes ! 2) = ''Salad''
   \<and> fl_startAngle (fl_drawSlices initialRecipes ! 2) < fl_endAngle (fl_drawSlices initialRecipes ! 2)
   \<and> \<bar>fl_endAngle (fl_drawSlices initialRecipes ! 2) - fl_startAngle (fl_drawSlices initialRecipes ! 2)
        - fl_twoPi / 5\<bar> \<le> 1 / 2 ^ 46
   \<and> fl_startAngle (fl_drawSlices initialRecipes ! 0) = 0
   \<and> fl_endAngle (fl_drawSlices initialRecipes ! 2) = fl_startAngle (fl_drawSlices initialRecipes ! 3)
   \<and> fl_endAngle (fl_drawSlices initialRecipes ! 4) = fl_twoPi"
proof -
  let ?ss = "fl_drawSlices initialRecipes"
  have len: "length initialRecipes = 5" by (simp add: initialRecipes_def)
  have h: "2 \<le> length initialRecipes" "length initialRecipes \<le> 100"
    by (simp_all add: len)
  have e: "name (initialRecipes ! 2) = ''Salad''" by (simp add: initialRecipes_def)
  note t = fl_drawSlices_tile_circle[OF h]
  have a: "length ?ss = 5" using t by (simp only: len)
  have "(2::nat) < length initialRecipes" by (simp add: len)
  then have b: "fl_label (?ss ! 2) = name (initialRecipes ! 2)
      \<and> fl_startAngle (?ss ! 2) < fl_endAngle (?ss ! 2)
      \<and> \<bar>fl_endAngle (?ss ! 2) - fl_startAngle (?ss ! 2) - fl_twoPi / real (length initialRecipes)\<bar>
           \<le> 1 / 2 ^ 46"
    using t by blast
  have c: "fl_startAngle (?ss ! 0) = 0" using t by blast
  have "(2::nat) + 1 < length initialRecipes" by (simp add: len)
  then have d: "fl_endAngle (?ss ! 2) = fl_startAngle (?ss ! (2 + 1))" using t by blast
  have f: "fl_endAngle (?ss ! (length initialRecipes - 1)) = fl_twoPi" using t by blast
  have n: "(2::nat) + 1 = 3" "(5::nat) - 1 = 4" "real (5::nat) = 5" by simp_all
  show ?thesis
    using h a b c d f by (simp only: len e n simp_thms)
qed

text \<open>
  The claim as stated, every span exactly \<open>2\<pi>/N\<close>, fails on doubles: with three recipes
  slice 2 runs from 4.1887902047863905 to 6.283185307179586, a span of
  2.0943951023931957, where \<^verbatim>\<open>Math.PI * 2 / 3\<close> is 2.0943951023931953; the span differs
  from that double and from the exact third of \<^verbatim>\<open>Math.PI * 2\<close>.
\<close>

theorem fl_span_counterexample:
  "fl_endAngle (fl_drawSlices [\<lparr>name = ''A''\<rparr>, \<lparr>name = ''B''\<rparr>, \<lparr>name = ''C''\<rparr>] ! 2)
     - fl_startAngle (fl_drawSlices [\<lparr>name = ''A''\<rparr>, \<lparr>name = ''B''\<rparr>, \<lparr>name = ''C''\<rparr>] ! 2)
     = 2358079250676147 / 2 ^ 50
   \<and> fl_sliceAngle 3 = 4716158501352293 / 2 ^ 51
   \<and> (2358079250676147 / 2 ^ 50 :: real) \<noteq> 4716158501352293 / 2 ^ 51
   \<and> (2358079250676147 / 2 ^ 50 :: real) \<noteq> fl_twoPi / 3
   \<and> rnd (2358079250676147 / 2 ^ 50) \<noteq> fl_sliceAngle 3"
proof -
  let ?labels = "[\<lparr>name = ''A''\<rparr>, \<lparr>name = ''B''\<rparr>, \<lparr>name = ''C''\<rparr>]"
  have e1: "rnd (real (2::nat) / real (3::nat)) = (6004799503160661 / 2 ^ 53)"
    using rnd_eval[where x = "real (2::nat) / real (3::nat)" and k = "-1" and n = "6004799503160661"]
    by (simp add: fl_twoPi_eq fl_topPosition_eq Math_PI_def)
  have e2: "rnd ((6004799503160661 / 2 ^ 53) * Math_PI) = (4716158501352293 / 2 ^ 51)"
    using rnd_eval[where x = "(6004799503160661 / 2 ^ 53) * Math_PI" and k = "1" and n = "4716158501352293"]
    by (simp add: fl_twoPi_eq fl_topPosition_eq Math_PI_def)
  have e3: "rnd ((4716158501352293 / 2 ^ 51) * 2) = (4716158501352293 / 2 ^ 50)"
    using rnd_eval[where x = "(4716158501352293 / 2 ^ 51) * 2" and k = "2" and n = "4716158501352293"]
    by (simp add: fl_twoPi_eq fl_topPosition_eq Math_PI_def)
  have a4: "fl_angle (3::nat) (2::nat) = (4716158501352293 / 2 ^ 50)"
    by (simp only: fl_angle_def e1 e2 e3)
  have e5: "rnd (real (3::nat) / real (3::nat)) = 1"
    using rnd_eval[where x = "real (3::nat) / real (3::nat)" and k = "0" and n = "4503599627370496"]
    by (simp add: fl_twoPi_eq fl_topPosition_eq Math_PI_def)
  have e6: "rnd (1 * Math_PI) = (884279719003555 / 2 ^ 48)"
    using rnd_eval[where x = "1 * Math_PI" and k = "1" and n = "7074237752028440"]
    by (simp add: fl_twoPi_eq fl_topPosition_eq Math_PI_def)
  have e7: "rnd ((884279719003555 / 2 ^ 48) * 2) = (884279719003555 / 2 ^ 47)"
    using rnd_eval[where x = "(884279719003555 / 2 ^ 48) * 2" and k = "2" and n = "7074237752028440"]
    by (simp add: fl_twoPi_eq fl_topPosition_eq Math_PI_def)
  have a8: "fl_angle (3::nat) (3::nat) = (884279719003555 / 2 ^ 47)"
    by (simp only: fl_angle_def e5 e6 e7)
  have s9: "rnd (fl_twoPi / real (3::nat)) = (4716158501352293 / 2 ^ 51)"
    using rnd_eval[where x = "fl_twoPi / real (3::nat)" and k = "1" and n = "4716158501352293"]
    by (simp add: fl_twoPi_eq fl_topPosition_eq Math_PI_def)
  have d10: "rnd ((884279719003555 / 2 ^ 47) - (4716158501352293 / 2 ^ 50)) = (2358079250676147 / 2 ^ 50)"
    using rnd_eval[where x = "(884279719003555 / 2 ^ 47) - (4716158501352293 / 2 ^ 50)" and k = "1" and n = "4716158501352294"]
    by (simp add: fl_twoPi_eq fl_topPosition_eq Math_PI_def)
  have len: "length ?labels = 3" by simp
  have z: "(2::nat) < length ?labels" by simp
  have S: "fl_startAngle (fl_drawSlices ?labels ! 2) = 4716158501352293 / 2 ^ 50"
    using nth_fl_drawSlices(1)[OF z] a4 by (simp only: len)
  have three: "(2::nat) + 1 = 3" by simp
  have E: "fl_endAngle (fl_drawSlices ?labels ! 2) = 884279719003555 / 2 ^ 47"
    using nth_fl_drawSlices(2)[OF z] a8 by (simp only: len three)
  have sl: "fl_sliceAngle 3 = 4716158501352293 / 2 ^ 51"
    using s9 by (simp add: fl_sliceAngle_def)
  have d: "rnd (2358079250676147 / 2 ^ 50) = 2358079250676147 / 2 ^ 50"
    using d10 by simp
  show ?thesis unfolding S E sl d by (simp add: fl_twoPi_eq Math_PI_def)
qed

text \<open>
  C5 (as amended). When the number of recipes is outside \<open>[2, 100]\<close>, \<^verbatim>\<open>createWheel\<close>
  returns at once and leaves the component exactly as it was: nothing is drawn and no
  error is raised, the count is silently ignored. \<^verbatim>\<open>getWinningItem\<close> raises no error
  for such a count either, at any rotation: with no recipes it returns \<^verbatim>\<open>null\<close>; with
  one recipe it returns that recipe's name; and with any count other than 0, so also with
  more than 100 recipes, it returns the name of the recipe at a winning index \<open>k\<close> with
  \<open>0 \<le> k < N\<close>, as it does for a count in range.
\<close>

theorem createWheel_getWinningItem_outside_range:
  assumes "length recipes < 2 \<or> 100 < length recipes"
  shows "createWheel recipes st = st
         \<and> (length recipes = 0 \<longrightarrow> fl_getWinningItem finalRotation recipes = Inr None)
         \<and> (length recipes = 1 \<longrightarrow>
               fl_getWinningItem finalRotation recipes = Inr (Some (name (recipes ! 0))))
         \<and> (0 < length recipes \<longrightarrow>
               (\<exists>k < length recipes.
                  fl_getWinningItem finalRotation recipes = Inr (Some (name (recipes ! k)))))"
proof -
  have a: "createWheel recipes st = st" using assms by (auto simp: createWheel_def)
  have b: "fl_getWinningItem finalRotation recipes = Inr None" if "length recipes = 0"
    using that by (simp add: fl_getWinningItem_def)
  have d: "\<exists>k < length recipes.
             fl_getWinningItem finalRotation recipes = Inr (Some (name (recipes ! k)))"
    if pos: "0 < length recipes"
  proof -
    obtain k :: nat where k: "k < length recipes"
        "fl_winningIndex finalRotation (length recipes) = real k"
      using fl_resolved_index[OF pos] by blast
    then have "fl_getWinningItem finalRotation recipes = Inr (Some (name (recipes ! k)))"
      by (rule fl_getWinningItem_at)
    then show ?thesis using k(1) by blast
  qed
  have c: "fl_getWinningItem finalRotation recipes = Inr (Some (name (recipes ! 0)))"
    if one: "length recipes = 1"
  proof -
    obtain k where "k < length recipes"
        "fl_getWinningItem finalRotation recipes = Inr (Some (name (recipes ! k)))"
      using d one by auto
    then show ?thesis using one by simp
  qed
  show ?thesis using a b c d by blast
qed

theorem createWheel_getWinningItem_outside_range_witness:
  "(length [\<lparr>name = ''Pizza''\<rparr>] < 2 \<or> 100 < length [\<lparr>name = ''Pizza''\<rparr>])
   \<and> wheelContainerRef (createWheel initialRecipes mounted) \<noteq> None
   \<and> createWheel [\<lparr>name = ''Pizza''\<rparr>] (createWheel initialRecipes mounted)
       = createWheel initialRecipes mounted
   \<and> fl_getWinningItem 1 [\<lparr>name = ''Pizza''\<rparr>] = Inr (Some ''Pizza'')"
proof -
  let ?one = "[\<lparr>name = ''Pizza''\<rparr>]"
  have h: "length ?one < 2 \<or> 100 < length ?one" by simp
  have l: "length ?one = 1" by simp
  have w: "wheelContainerRef (createWheel initialRecipes mounted) \<noteq> None"
    by (simp add: createWheel_def mounted_def initialRecipes_def)
  note t = createWheel_getWinningItem_outside_range[OF h, of "createWheel initialRecipes mounted" 1]
  have "createWheel ?one (createWheel initialRecipes mounted) = createWheel initialRecipes mounted"
    using t by blast
  moreover have "fl_getWinningItem 1 ?one = Inr (Some (name (?one ! 0)))"
    using t l by blast
  ultimately show ?thesis using h w by simp
qed

text \<open>
  The claim as stated, that both operations fail with an error whenever the count is
  outside \<open>[2, 100]\<close>, fails. With no recipes \<^verbatim>\<open>createWheel\<close> changes nothing and
  \<^verbatim>\<open>getWinningItem\<close> returns a value, not an error; with a single recipe
  \<^verbatim>\<open>getWinningItem\<close> returns that recipe's name; with 101 recipes \<^verbatim>\<open>createWheel\<close>
  leaves a wheel drawn earlier in place and \<^verbatim>\<open>getWinningItem\<close> returns a name.
\<close>

theorem no_InvalidLabelCount_counterexample:
  "createWheel [] mounted = mounted
   \<and> \<not> isl (fl_getWinningItem 0 [])
   \<and> fl_getWinningItem 0 [\<lparr>name = ''Pizza''\<rparr>] = Inr (Some ''Pizza'')
   \<and> createWheel (replicate 101 \<lparr>name = ''Pizza''\<rparr>) (createWheel initialRecipes mounted)
       = createWheel initialRecipes mounted
   \<and> fl_getWinningItem 0 (replicate 101 \<lparr>name = ''Pizza''\<rparr>) = Inr (Some ''Pizza'')"
proof -
  have a: "createWheel [] mounted = mounted" by (simp add: createWheel_def)
  have b: "\<not> isl (fl_getWinningItem 0 [])" by (simp add: fl_getWinningItem_def)
  have many: "fl_getWinningItem 0 (replicate n \<lparr>name = ''Pizza''\<rparr>) = Inr (Some ''Pizza'')"
    if "0 < n" for n
  proof -
    let ?rs = "replicate n \<lparr>name = ''Pizza''\<rparr>"
    have "0 < length ?rs" using that by simp
    then obtain k :: nat where k: "k < length ?rs" "fl_winningIndex 0 (length ?rs) = real k"
      using fl_resolved_index by blast
    then have "fl_getWinningItem 0 ?rs = Inr (Some (name (?rs ! k)))"
      by (rule fl_getWinningItem_at)
    then show ?thesis using k(1) by simp
  qed
  have c: "fl_getWinningItem 0 [\<lparr>name = ''Pizza''\<rparr>] = Inr (Some ''Pizza'')"
    using many[of 1] by simp
  have d: "createWheel (replicate 101 \<lparr>name = ''Pizza''\<rparr>) (createWheel initialRecipes mounted)
       = createWheel initialRecipes mounted"
    by (simp add: createWheel_def)
  have e: "fl_getWinningItem 0 (replicate 101 \<lparr>name = ''Pizza''\<rparr>) = Inr (Some ''Pizza'')"
    by (rule many) simp
  show ?thesis using a b c d e by blast
qed

end
